theory Spec2Isabelle
  imports Main "HOL-Library.Word"
begin

unbundle bit_operations_syntax

section \<open>Grayscale image codec: data model\<close>

text \<open>
  The codec of this repository works on flat byte buffers. A \<open>uint8_t\<close> is an
  \<open>8 word\<close>, a \<open>uint32_t\<close> a \<open>32 word\<close>, a \<open>size_t\<close> or \<open>uint64_t\<close> a
  \<open>64 word\<close> where its arithmetic is bitwise or can wrap; positions in buffers
  and sizes of allocations are natural numbers. A buffer handed to a function as pointer plus size is a list
  plus a number; an access outside the list is undefined behaviour in the source and
  the value \<open>Inl OutOfBounds\<close> in the model. A dereferenced null pointer is
  \<open>Inl NullPointer\<close>, a command line that \<open>parse_arguments\<close> refuses is
  \<open>Inl InvalidArgument\<close>. A loop whose termination depends on the shape of the
  tree is a partial function: \<open>None\<close> is a run that does not return.
\<close>

type_synonym byte = "8 word"
type_synonym u32 = "32 word"
type_synonym u64 = "64 word"

datatype error = OutOfBounds | NullPointer | InvalidArgument

section \<open>Differential transform (data\_worker.cpp)\<close>

text \<open>
  \<open>DataWorker::Preprocess\<close> works on the buffer of the object, whose length is
  \<open>buff_size\<close>: it copies \<open>buffer[0]\<close> and then stores \<open>buffer[i] - buffer[i - 1]\<close>
  for every \<open>1 \<le> i < buff_size\<close>. With \<open>buff_size = 0\<close> the loop is not entered and
  no byte is copied back: the call returns with the empty buffer.
\<close>

fun preprocess_loop :: "byte \<Rightarrow> byte list \<Rightarrow> byte list" where
  "preprocess_loop prev [] = []"
| "preprocess_loop prev (b # bs) = (b - prev) # preprocess_loop b bs"

definition Preprocess :: "byte list \<Rightarrow> byte list" where
  "Preprocess buffer =
     (case buffer of
        [] \<Rightarrow> []
      | b # bs \<Rightarrow> b # preprocess_loop b bs)"

text \<open>
  \<open>DataWorker::Depreprocess(buffer, size)\<close> copies \<open>buffer[0]\<close> and then stores
  \<open>orig_image[i - 1] + buffer[i]\<close> for every \<open>1 \<le> i < size\<close>; the first \<open>size\<close>
  bytes of the buffer are overwritten with the result. With \<open>size = 0\<close> the buffer is
  returned as it is; a \<open>size\<close> beyond the buffer is an access out of range.
\<close>

fun depreprocess_loop :: "byte \<Rightarrow> byte list \<Rightarrow> byte list" where
  "depreprocess_loop prev [] = []"
| "depreprocess_loop prev (b # bs) = (prev + b) # depreprocess_loop (prev + b) bs"

definition Depreprocess :: "byte list \<Rightarrow> nat \<Rightarrow> error + byte list" where
  "Depreprocess buffer sz =
     (if length buffer < sz then Inl OutOfBounds
      else (case take sz buffer of
              [] \<Rightarrow> Inr buffer
            | b # bs \<Rightarrow> Inr ((b # depreprocess_loop b bs) @ drop sz buffer)))"

section \<open>Results with errors\<close>

text \<open>
  \<open>bind_error\<close> continues after a step that can fail, \<open>bind_run\<close> after a step
  that can also fail to return.
\<close>

definition bind_error :: "error + 'a \<Rightarrow> ('a \<Rightarrow> error + 'b) \<Rightarrow> error + 'b" where
  "bind_error m f = (case m of Inl e \<Rightarrow> Inl e | Inr x \<Rightarrow> f x)"

definition bind_run ::
  "(error + 'a) option \<Rightarrow> ('a \<Rightarrow> (error + 'b) option) \<Rightarrow> (error + 'b) option" where
  "bind_run m f = (case m of None \<Rightarrow> None | Some (Inl e) \<Rightarrow> Some (Inl e) | Some (Inr x) \<Rightarrow> f x)"

definition lift_error :: "error + 'a \<Rightarrow> (error + 'a) option" where
  "lift_error m = Some m"

section \<open>Adaptive Huffman coding\<close>

subsection \<open>Tree (huffman.hpp and the tree functions of both classes)\<close>

text \<open>
  The nodes live in an arena, the list \<open>nodes\<close>, in the order of their allocation
  by \<open>GenNode\<close>; a \<open>Node *\<close> is \<open>None\<close> for \<open>nullptr\<close> or the position of the
  node. Nodes are only freed by the destructors. \<open>index\<close> is an \<open>int32_t\<close>
  that stays between 1 and 513.

  The output arrays of both classes are zero-filled on allocation and their content
  beyond the write position is read again (bits are or-ed into it, and the
  decompressor reads what the decoder leaves behind), so the capacity \<open>alloc\<close> is
  part of the state. The list \<open>buffer\<close> holds the front of the array; the bytes
  from its length up to \<open>alloc\<close> are zero (\<open>fetch\<close>, \<open>store\<close>, \<open>GetBuffer\<close>).
\<close>

record Node =
  left :: "nat option"
  right :: "nat option"
  parent :: "nat option"
  index :: int
  weight :: u64
  val :: byte

record huffman_tree =
  nodes :: "Node list"
  root :: "nat option"
  NYT :: "nat option"
  buffer :: "byte list"
  alloc :: nat

record HuffmanCoder = huffman_tree +
  leaf_nodes :: "byte \<Rightarrow> nat option"
  byte_index :: nat
  bit_index :: nat

record HuffmanDecoder = huffman_tree +
  write_byte_index :: nat
  read_byte_index :: nat
  read_bit_index :: nat

definition N_VALUES :: int where "N_VALUES = 256"
definition ALLOC_SIZE :: nat where "ALLOC_SIZE = 512"
definition BITS_IN_BYTE :: nat where "BITS_IN_BYTE = 8"
definition PADDING_BITS_MASK :: byte where "PADDING_BITS_MASK = 0x07"
definition SETTINGS_BIT_CHECK :: byte where "SETTINGS_BIT_CHECK = 0x08"

text \<open>
  A pointer that is not null designates an allocated node in every reachable state;
  \<open>deref\<close> treats any other value like the null pointer.
\<close>

definition deref :: "Node list \<Rightarrow> nat option \<Rightarrow> error + Node" where
  "deref ns p = (case p of None \<Rightarrow> Inl NullPointer
                 | Some a \<Rightarrow> if a < length ns then Inr (ns ! a) else Inl NullPointer)"

definition set_node :: "Node list \<Rightarrow> nat option \<Rightarrow> (Node \<Rightarrow> Node) \<Rightarrow> error + Node list" where
  "set_node ns p f = bind_error (deref ns p) (\<lambda>n. Inr (ns[the p := f n]))"

definition GenNode :: Node where
  "GenNode = \<lparr>left = None, right = None, parent = None, index = 0, weight = 0, val = 0\<rparr>"

definition InitTree :: "'a huffman_tree_scheme \<Rightarrow> 'a huffman_tree_scheme" where
  "InitTree t = t\<lparr>nodes := nodes t @ [GenNode\<lparr>index := N_VALUES * 2 + 1\<rparr>],
                  root := Some (length (nodes t)), NYT := Some (length (nodes t))\<rparr>"

text \<open>
  \<open>AddSymbol\<close> of both classes splits the NYT node: the new leaf becomes the right
  child, the new NYT node the left child, the weights of the leaf and of the old NYT
  node are incremented. The result is the new tree, the leaf and the old NYT node.
\<close>

definition split_NYT ::
  "'a huffman_tree_scheme \<Rightarrow> byte \<Rightarrow> error + ('a huffman_tree_scheme \<times> nat option \<times> nat option)" where
  "split_NYT t symbol =
     bind_error (deref (nodes t) (NYT t)) (\<lambda>nyt.
       let r = length (nodes t);
           l = length (nodes t) + 1;
           rnode = GenNode\<lparr>val := symbol, index := index nyt - 1,
                           weight := weight GenNode + 1, parent := NYT t\<rparr>;
           lnode = GenNode\<lparr>index := index nyt - 2, parent := NYT t\<rparr>;
           nyt' = nyt\<lparr>right := Some r, left := Some l, weight := weight nyt + 1\<rparr>
       in Inr (t\<lparr>nodes := (nodes t)[the (NYT t) := nyt'] @ [rnode, lnode], NYT := Some l\<rparr>,
               Some r, NYT t))"

partial_function (option) FindPathToRoot ::
  "Node list \<Rightarrow> nat option \<Rightarrow> byte list \<Rightarrow> (error + byte list) option" where
  "FindPathToRoot ns tmp path =
     (case deref ns tmp of
        Inl e \<Rightarrow> Some (Inl e)
      | Inr t \<Rightarrow>
          (case parent t of
             None \<Rightarrow> Some (Inr path)
           | Some p \<Rightarrow>
               (case deref ns (Some p) of
                  Inl e \<Rightarrow> Some (Inl e)
                | Inr pn \<Rightarrow>
                    FindPathToRoot ns (Some p) (path @ [if right pn = tmp then 1 else 0]))))"


text \<open>
  \<open>FindHighestBlockNode\<close>: the queue of the breadth-first search is a list that
  grows at its end, right child first; the result is the first node met whose index
  is not below and whose weight equals that of \<open>node\<close>.
\<close>

partial_function (option) find_highest_loop ::
  "Node list \<Rightarrow> nat option \<Rightarrow> nat option list \<Rightarrow> nat \<Rightarrow> (error + nat option) option" where
  "find_highest_loop ns node queue i =
     (if i < length queue then
        (case deref ns (queue ! i) of
           Inl e \<Rightarrow> Some (Inl e)
         | Inr tmp \<Rightarrow>
             (case deref ns node of
                Inl e \<Rightarrow> Some (Inl e)
              | Inr nd \<Rightarrow>
                  if index nd \<le> index tmp \<and> weight tmp = weight nd then Some (Inr (queue ! i))
                  else find_highest_loop ns node
                         (queue @ (if right tmp \<noteq> None then [right tmp] else [])
                                @ (if left tmp \<noteq> None then [left tmp] else []))
                         (i + 1)))
      else Some (Inr node))"


definition FindHighestBlockNode ::
  "Node list \<Rightarrow> nat option \<Rightarrow> nat option \<Rightarrow> (error + nat option) option" where
  "FindHighestBlockNode ns rt node = find_highest_loop ns node [rt] 0"

text \<open>
  \<open>SwapNodes\<close>, statement by statement on the arena. The coder saves the index in
  an \<open>int32_t\<close>, the decoder in a \<open>uint16_t\<close>: \<open>conv\<close> is that conversion.
\<close>

definition SwapNodes ::
  "(int \<Rightarrow> int) \<Rightarrow> Node list \<Rightarrow> nat option \<Rightarrow> nat option \<Rightarrow> error + Node list" where
  "SwapNodes conv ns node1 node2 =
     bind_error (deref ns node1) (\<lambda>n1.
     bind_error (deref ns node2) (\<lambda>n2.
       let tmp_index = conv (index n1);
           node1_parent = parent n1;
           node2_parent = parent n2
       in
     bind_error (set_node ns node1 (\<lambda>n. n\<lparr>index := index n2\<rparr>)) (\<lambda>ns1.
     bind_error (set_node ns1 node2 (\<lambda>n. n\<lparr>index := tmp_index\<rparr>)) (\<lambda>ns2.
     bind_error (deref ns2 node1_parent) (\<lambda>p1.
     bind_error (deref ns2 node2_parent) (\<lambda>p2.
       let node1_side = (left p1 \<noteq> node1);
           node2_side = (left p2 \<noteq> node2)
       in
     bind_error (set_node ns2 node1_parent
                   (\<lambda>n. if node1_side then n\<lparr>right := node2\<rparr> else n\<lparr>left := node2\<rparr>)) (\<lambda>ns3.
     bind_error (set_node ns3 node2_parent
                   (\<lambda>n. if node2_side then n\<lparr>right := node1\<rparr> else n\<lparr>left := node1\<rparr>)) (\<lambda>ns4.
     bind_error (set_node ns4 node1 (\<lambda>n. n\<lparr>parent := node2_parent\<rparr>)) (\<lambda>ns5.
     set_node ns5 node2 (\<lambda>n. n\<lparr>parent := node1_parent\<rparr>))))))))))"

text \<open>
  The tree update at the end of the loop body of \<open>Encode\<close> and \<open>Decode\<close>:
  \<open>update_step\<close> is one pass up to the increment of the weight, \<open>update_tree\<close>
  the loop, left at the root.
\<close>

definition update_step ::
  "(int \<Rightarrow> int) \<Rightarrow> Node list \<Rightarrow> nat option \<Rightarrow> nat option \<Rightarrow> (error + Node list) option" where
  "update_step conv ns rt node =
     bind_run (FindHighestBlockNode ns rt node) (\<lambda>highest_node.
     lift_error (
       bind_error (deref ns node) (\<lambda>nd.
       bind_error (if highest_node \<noteq> node \<and> highest_node \<noteq> parent nd
                   then SwapNodes conv ns highest_node node else Inr ns) (\<lambda>ns1.
       set_node ns1 node (\<lambda>n. n\<lparr>weight := weight n + 1\<rparr>)))))"

partial_function (option) update_tree ::
  "(int \<Rightarrow> int) \<Rightarrow> Node list \<Rightarrow> nat option \<Rightarrow> nat option \<Rightarrow> (error + Node list) option" where
  "update_tree conv ns rt node =
     (case update_step conv ns rt node of
        None \<Rightarrow> None
      | Some (Inl e) \<Rightarrow> Some (Inl e)
      | Some (Inr ns1) \<Rightarrow>
          if rt = node then Some (Inr ns1)
          else (case deref ns1 node of
                  Inl e \<Rightarrow> Some (Inl e)
                | Inr nd \<Rightarrow> update_tree conv ns1 rt (parent nd)))"


definition conv_int32 :: "int \<Rightarrow> int" where "conv_int32 i = i"
definition conv_uint16 :: "int \<Rightarrow> int" where "conv_uint16 i = i mod 65536"

subsection \<open>The tree invariants of the specification\<close>

text \<open>
  The specification asks for a breadth-first traversal of the tree after each symbol.
  \<open>tree_order\<close> is that traversal in the order of the search of
  \<open>FindHighestBlockNode\<close> (right child before left child); \<open>indices_decrease\<close>
  is invariant (a), indices strictly decreasing along the traversal, and
  \<open>weights_ordered\<close> invariant (b), a node of higher weight has the higher index.
\<close>

partial_function (option) tree_order_loop ::
  "Node list \<Rightarrow> nat option list \<Rightarrow> nat \<Rightarrow> (error + Node list) option" where
  "tree_order_loop ns queue i =
     (if i < length queue then
        (case deref ns (queue ! i) of
           Inl e \<Rightarrow> Some (Inl e)
         | Inr tmp \<Rightarrow>
             tree_order_loop ns
               (queue @ (if right tmp \<noteq> None then [right tmp] else [])
                      @ (if left tmp \<noteq> None then [left tmp] else []))
               (i + 1))
      else Some (Inr (map (\<lambda>p. ns ! the p) queue)))"

definition tree_order :: "'a huffman_tree_scheme \<Rightarrow> (error + Node list) option" where
  "tree_order t = tree_order_loop (nodes t) [root t] 0"

definition indices_decrease :: "Node list \<Rightarrow> bool" where
  "indices_decrease ns = sorted_wrt (\<lambda>a b. index b < index a) ns"

definition weights_ordered :: "Node list \<Rightarrow> bool" where
  "weights_ordered ns =
     list_all (\<lambda>a. list_all (\<lambda>b. weight a \<le> weight b \<or> index b < index a) ns) ns"

subsection \<open>Coder (huffman\_coder.cpp)\<close>

definition store :: "byte list \<Rightarrow> nat \<Rightarrow> byte \<Rightarrow> byte list" where
  "store buf i v = (buf @ replicate (Suc i - length buf) 0)[i := v]"

definition fetch :: "byte list \<Rightarrow> nat \<Rightarrow> byte" where
  "fetch buf i = (if i < length buf then buf ! i else 0)"

definition GetBuffer :: "'a huffman_tree_scheme \<Rightarrow> byte list" where
  "GetBuffer t = buffer t @ replicate (alloc t - length (buffer t)) 0"

text \<open>
  \<open>ReallocateBuffer\<close> copies \<open>byte_index + 1\<close> bytes into a zeroed array that is
  512 bytes larger.
\<close>

definition ReallocateBuffer :: "HuffmanCoder \<Rightarrow> error + HuffmanCoder" where
  "ReallocateBuffer hc =
     (if alloc hc \<le> byte_index hc + 20 then
        (if alloc hc \<noteq> 0 \<and> alloc hc < byte_index hc + 1 then Inl OutOfBounds
         else Inr (hc\<lparr>buffer := take (byte_index hc + 1) (buffer hc),
                      alloc := alloc hc + ALLOC_SIZE\<rparr>))
      else Inr hc)"

text \<open>
  \<open>AddBits\<close> writes the vector from its last element to its first; a set bit is
  or-ed into \<open>buffer[byte_index]\<close>.
\<close>

fun add_bits_loop :: "HuffmanCoder \<Rightarrow> byte list \<Rightarrow> error + HuffmanCoder" where
  "add_bits_loop hc [] = Inr hc"
| "add_bits_loop hc (b # bs) =
     (if b = 1 \<and> alloc hc \<le> byte_index hc then Inl OutOfBounds
      else
        (let hc1 = (if b = 1
                    then hc\<lparr>buffer := store (buffer hc) (byte_index hc)
                                        (fetch (buffer hc) (byte_index hc) OR push_bit (bit_index hc) 1)\<rparr>
                    else hc);
             hc2 = hc1\<lparr>bit_index := bit_index hc1 + 1\<rparr>;
             hc3 = (if BITS_IN_BYTE \<le> bit_index hc2
                    then hc2\<lparr>bit_index := 0, byte_index := byte_index hc2 + 1\<rparr> else hc2)
         in add_bits_loop hc3 bs))"

definition AddBits :: "HuffmanCoder \<Rightarrow> byte list \<Rightarrow> error + HuffmanCoder" where
  "AddBits hc bits =
     (if length bits = 0 then Inr hc
      else bind_error (ReallocateBuffer hc) (\<lambda>hc1. add_bits_loop hc1 (rev bits)))"

definition AddByte :: "HuffmanCoder \<Rightarrow> byte \<Rightarrow> error + HuffmanCoder" where
  "AddByte hc b =
     AddBits hc (map (\<lambda>i. if b AND push_bit i 1 \<noteq> 0 then 1 else 0) [0..<BITS_IN_BYTE])"

definition HuffmanCoder_new :: "error + HuffmanCoder" where
  "HuffmanCoder_new =
     bind_error
       (ReallocateBuffer
          \<lparr>nodes = [], root = None, NYT = None, buffer = [], alloc = 0,
           leaf_nodes = (\<lambda>_. None), byte_index = 0, bit_index = 0\<rparr>)
       (\<lambda>hc. Inr (InitTree hc))"

definition AddSymbol :: "HuffmanCoder \<Rightarrow> byte \<Rightarrow> error + (HuffmanCoder \<times> nat option)" where
  "AddSymbol hc symbol =
     bind_error (split_NYT hc symbol) (\<lambda>(hc1, leaf, old_nyt).
       Inr (hc1\<lparr>leaf_nodes := (leaf_nodes hc1)(symbol := leaf)\<rparr>, old_nyt))"

definition FindSymbol :: "HuffmanCoder \<Rightarrow> byte \<Rightarrow> nat option" where
  "FindSymbol hc symbol = leaf_nodes hc symbol"

text \<open>
  The body of the loop of \<open>Encode\<close> for one input byte, and the loop over the
  first \<open>size\<close> bytes of the input.
\<close>

definition encode_symbol :: "HuffmanCoder \<Rightarrow> byte \<Rightarrow> (error + HuffmanCoder) option" where
  "encode_symbol hc b =
     bind_run
       (case FindSymbol hc b of
          None \<Rightarrow>
            bind_run (FindPathToRoot (nodes hc) (NYT hc) []) (\<lambda>path.
            lift_error (
              bind_error (AddBits hc path) (\<lambda>hc1.
              bind_error (AddSymbol hc1 b) (\<lambda>(hc2, node).
              bind_error (AddByte hc2 b) (\<lambda>hc3. Inr (hc3, node))))))
        | Some n \<Rightarrow>
            bind_run (FindPathToRoot (nodes hc) (Some n) []) (\<lambda>path.
            lift_error (bind_error (AddBits hc path) (\<lambda>hc1. Inr (hc1, Some n)))))
       (\<lambda>(hc1, node).
          bind_run (update_tree conv_int32 (nodes hc1) (root hc1) node) (\<lambda>ns.
          Some (Inr (hc1\<lparr>nodes := ns\<rparr>))))"

fun encode_loop :: "HuffmanCoder \<Rightarrow> byte list \<Rightarrow> (error + HuffmanCoder) option" where
  "encode_loop hc [] = Some (Inr hc)"
| "encode_loop hc (b # bs) = bind_run (encode_symbol hc b) (\<lambda>hc1. encode_loop hc1 bs)"

definition GetSize :: "HuffmanCoder \<Rightarrow> nat" where
  "GetSize hc = (if bit_index hc = 0 then byte_index hc else byte_index hc + 1)"

text \<open>
  \<open>CompareWithRLE\<close> returns the coder and the outer settings byte. The copy reads
  \<open>size\<close> bytes of the input and writes them over the front of the array.
\<close>

definition CompareWithRLE ::
  "HuffmanCoder \<Rightarrow> byte list \<Rightarrow> nat \<Rightarrow> error + (HuffmanCoder \<times> byte)" where
  "CompareWithRLE hc buf sz =
     (if sz < GetSize hc then
        (if length buf < sz \<or> alloc hc < sz then Inl OutOfBounds
         else Inr (hc\<lparr>buffer := take sz buf @ drop sz (buffer hc),
                      bit_index := 0, byte_index := sz\<rparr>, 0))
      else Inr (hc, (if bit_index hc = 0 then 0 else of_nat (8 - bit_index hc))
                      OR SETTINGS_BIT_CHECK))"

definition Encode ::
  "HuffmanCoder \<Rightarrow> byte list \<Rightarrow> nat \<Rightarrow> (error + (HuffmanCoder \<times> byte)) option" where
  "Encode hc buf sz =
     bind_run (encode_loop hc (take sz buf)) (\<lambda>hc1.
       if length buf < sz then Some (Inl OutOfBounds) else Some (CompareWithRLE hc1 buf sz))"


subsection \<open>Decoder (huffman\_decoder.cpp)\<close>

definition HuffmanDecoder_new :: HuffmanDecoder where
  "HuffmanDecoder_new =
     InitTree \<lparr>nodes = [], root = None, NYT = None, buffer = [], alloc = 0,
               write_byte_index = 0, read_byte_index = 0, read_bit_index = 0\<rparr>"

definition ReallocateBuffer_dec :: "HuffmanDecoder \<Rightarrow> error + HuffmanDecoder" where
  "ReallocateBuffer_dec d =
     (if alloc d \<le> write_byte_index d + 20 then
        (if alloc d \<noteq> 0 \<and> alloc d < write_byte_index d then Inl OutOfBounds
         else Inr (d\<lparr>buffer := take (write_byte_index d) (buffer d),
                     alloc := alloc d + ALLOC_SIZE\<rparr>))
      else Inr d)"

definition AddSymbolToBuffer :: "HuffmanDecoder \<Rightarrow> byte \<Rightarrow> error + HuffmanDecoder" where
  "AddSymbolToBuffer d symbol =
     bind_error (ReallocateBuffer_dec d) (\<lambda>d1.
       if alloc d1 \<le> write_byte_index d1 then Inl OutOfBounds
       else Inr (d1\<lparr>buffer := store (buffer d1) (write_byte_index d1) symbol,
                    write_byte_index := write_byte_index d1 + 1\<rparr>))"

definition NextBit ::
  "HuffmanDecoder \<Rightarrow> byte list \<Rightarrow> nat \<Rightarrow> error + (bool \<times> HuffmanDecoder) option" where
  "NextBit d buf sz =
     (if read_byte_index d = sz then Inr None
      else if length buf \<le> read_byte_index d then Inl OutOfBounds
      else
        (let res = (buf ! read_byte_index d AND push_bit (read_bit_index d) 1 \<noteq> 0);
             d1 = d\<lparr>read_bit_index := read_bit_index d + 1\<rparr>;
             d2 = (if BITS_IN_BYTE \<le> read_bit_index d1
                   then d1\<lparr>read_bit_index := 0, read_byte_index := read_byte_index d1 + 1\<rparr>
                   else d1)
         in Inr (Some (res, d2))))"

fun read_symbol_loop ::
  "HuffmanDecoder \<Rightarrow> byte list \<Rightarrow> nat \<Rightarrow> byte \<Rightarrow> nat list \<Rightarrow> error + (byte option \<times> HuffmanDecoder)" where
  "read_symbol_loop d buf sz symbol [] = Inr (Some symbol, d)"
| "read_symbol_loop d buf sz symbol (i # is) =
     (case NextBit d buf sz of
        Inl e \<Rightarrow> Inl e
      | Inr None \<Rightarrow> Inr (None, d)
      | Inr (Some (b1, d1)) \<Rightarrow>
          read_symbol_loop d1 buf sz (if b1 then symbol OR push_bit (7 - i) 1 else symbol) is)"

definition ReadSymbol ::
  "HuffmanDecoder \<Rightarrow> byte list \<Rightarrow> nat \<Rightarrow> error + (byte option \<times> HuffmanDecoder)" where
  "ReadSymbol d buf sz = read_symbol_loop d buf sz 0 [0..<BITS_IN_BYTE]"

definition IsEnd :: "HuffmanDecoder \<Rightarrow> nat \<Rightarrow> nat \<Rightarrow> bool" where
  "IsEnd d sz padding_bits =
     (read_bit_index d + padding_bits = 9 \<and> sz = read_byte_index d + 1)"

definition IsExternalNode :: "Node list \<Rightarrow> nat option \<Rightarrow> error + bool" where
  "IsExternalNode ns node =
     (if node = None then Inr False
      else bind_error (deref ns node) (\<lambda>n. Inr (left n = None \<and> right n = None)))"

definition AddSymbol_dec ::
  "HuffmanDecoder \<Rightarrow> byte \<Rightarrow> error + (HuffmanDecoder \<times> nat option)" where
  "AddSymbol_dec d symbol =
     bind_error (AddSymbolToBuffer d symbol) (\<lambda>d1.
     bind_error (split_NYT d1 symbol) (\<lambda>(d2, leaf, old_nyt). Inr (d2, old_nyt)))"

text \<open>
  One pass through the body of the \<open>while\<close> loop of \<open>Decode\<close>: \<open>Inl\<close> of the
  inner sum is a \<open>return\<close> with the given result, \<open>Inr\<close> the state and the current
  node at the next iteration. After the tree update the variable \<open>node\<close> is the
  root, because the update loop only leaves at \<open>this->root == node\<close>. The flag
  \<open>end_of_buffer\<close> is false whenever the loop condition is evaluated: it is set by
  \<open>NextBit\<close> only, and both places return at once when it is set.
\<close>

definition decode_step ::
  "HuffmanDecoder \<Rightarrow> byte list \<Rightarrow> nat \<Rightarrow> nat \<Rightarrow> nat option \<Rightarrow>
     (error + ((bool \<times> HuffmanDecoder) + (HuffmanDecoder \<times> nat option))) option" where
  "decode_step d buf sz padding_bits node =
     (if IsEnd d sz padding_bits then Some (Inr (Inl (True, d)))
      else
        bind_run (lift_error (IsExternalNode (nodes d) node)) (\<lambda>ext.
          if \<not> ext then
            lift_error (
              bind_error (NextBit d buf sz) (\<lambda>r.
                case r of
                  None \<Rightarrow> Inr (Inl (True, d))
                | Some (move_right, d1) \<Rightarrow>
                    bind_error (deref (nodes d1) node) (\<lambda>n.
                      if move_right then
                        (if right n = None then Inr (Inl (False, d1))
                         else Inr (Inr (d1, right n)))
                      else
                        (if left n = None then Inr (Inl (False, d1))
                         else Inr (Inr (d1, left n))))))
          else
            bind_run
              (lift_error (
                 if node = NYT d then
                   bind_error (ReadSymbol d buf sz) (\<lambda>(s, d1).
                     case s of
                       None \<Rightarrow> Inr (Inl (False, d1))
                     | Some symbol \<Rightarrow>
                         bind_error (AddSymbol_dec d1 symbol) (\<lambda>(d2, old_nyt).
                           Inr (Inr (d2, old_nyt))))
                 else
                   bind_error (deref (nodes d) node) (\<lambda>n.
                   bind_error (AddSymbolToBuffer d (val n)) (\<lambda>d1. Inr (Inr (d1, node))))))
              (\<lambda>r.
                 case r of
                   Inl res \<Rightarrow> Some (Inr (Inl res))
                 | Inr (d1, node1) \<Rightarrow>
                     bind_run (update_tree conv_uint16 (nodes d1) (root d1) node1) (\<lambda>ns.
                       Some (Inr (Inr (d1\<lparr>nodes := ns\<rparr>, root d1)))))))"

partial_function (option) decode_loop ::
  "HuffmanDecoder \<Rightarrow> byte list \<Rightarrow> nat \<Rightarrow> nat \<Rightarrow> nat option \<Rightarrow>
     (error + (bool \<times> HuffmanDecoder)) option" where
  "decode_loop d buf sz padding_bits node =
     (case decode_step d buf sz padding_bits node of
        None \<Rightarrow> None
      | Some (Inl e) \<Rightarrow> Some (Inl e)
      | Some (Inr (Inl res)) \<Rightarrow> Some (Inr res)
      | Some (Inr (Inr (d1, node1))) \<Rightarrow> decode_loop d1 buf sz padding_bits node1)"

text \<open>
  \<open>HuffmanDecoder::Decode(buffer, size)\<close>. The pass-through branch allocates
  \<open>size - 1\<close> bytes and copies \<open>buffer[1 .. size - 1]\<close>; with \<open>size = 0\<close> the
  subtraction wraps and the copy has no valid target.
\<close>

definition pass_through ::
  "HuffmanDecoder \<Rightarrow> byte list \<Rightarrow> nat \<Rightarrow> (error + (bool \<times> HuffmanDecoder)) option" where
  "pass_through d buf sz =
     (if sz = 0 then Some (Inl NullPointer)
      else if 1 < sz \<and> length buf < sz then Some (Inl OutOfBounds)
      else Some (Inr (True, d\<lparr>buffer := take (sz - 1) (drop 1 buf),
                               write_byte_index := sz - 1\<rparr>)))"

definition Decode ::
  "HuffmanDecoder \<Rightarrow> byte list \<Rightarrow> nat \<Rightarrow> (error + (bool \<times> HuffmanDecoder)) option" where
  "Decode d buf sz =
     (if 1 < sz then
        (if buf = [] then Some (Inl OutOfBounds)
         else if buf ! 0 AND SETTINGS_BIT_CHECK \<noteq> 0 then
           decode_loop (d\<lparr>read_byte_index := read_byte_index d + 1\<rparr>) buf sz
             (unat (buf ! 0 AND PADDING_BITS_MASK)) (root d)
         else pass_through d buf sz)
      else pass_through d buf sz)"

definition GetSize_dec :: "HuffmanDecoder \<Rightarrow> nat" where
  "GetSize_dec d = write_byte_index d"

section \<open>Run-length encoding\<close>

definition SCANNING_MASK :: byte where "SCANNING_MASK = 0x80"
definition MODEL_MASK :: byte where "MODEL_MASK = 0x40"
definition HEIGHT_COUNT_MASK :: byte where "HEIGHT_COUNT_MASK = 0x07"
definition WIDTH_COUNT_MASK :: byte where "WIDTH_COUNT_MASK = 0x38"
definition FIRST_BIT_MASK :: byte where "FIRST_BIT_MASK = 0x01"
definition UINT8_T_SIZE :: nat where "UINT8_T_SIZE = 8"
definition UINT8_T_PADDING :: byte where "UINT8_T_PADDING = 0"
definition MAX_COUNTER_VAL :: byte where "MAX_COUNTER_VAL = 0xFF"

subsection \<open>Compressor (rle\_compressor.cpp)\<close>

text \<open>
  The object of class \<open>RleCompressor\<close>: \<open>alloc_size\<close> is fixed by the constructor,
  \<open>encoded_alloc\<close> is the size of the array behind \<open>encoded_buff\<close>. The list
  \<open>encoded_buff\<close> holds the bytes written so far, so \<open>encoded_index\<close> is its
  length. No write of the class is checked against \<open>encoded_alloc\<close>: a write at or
  behind \<open>encoded_alloc\<close> is \<open>OutOfBounds\<close> here. The image \<open>buffer\<close> is an
  argument of the scanning functions.

  The constructor computes \<open>alloc_size\<close> from its \<open>uint32_t\<close> arguments in 32-bit
  arithmetic and leaves the output unallocated.
\<close>

record RleCompressor =
  alloc_size :: nat
  encoded_buff :: "byte list"
  encoded_alloc :: nat

definition encoded_index :: "RleCompressor \<Rightarrow> nat" where
  "encoded_index c = length (encoded_buff c)"

definition RleCompressor_new :: "u32 \<Rightarrow> u32 \<Rightarrow> RleCompressor" where
  "RleCompressor_new width height =
     \<lparr>alloc_size = unat (width * height + (width * height) div 8 + 1),
      encoded_buff = [], encoded_alloc = 0\<rparr>"

text \<open>
  \<open>ReallocateBuffer\<close> allocates \<open>alloc_size\<close> bytes the first time and
  \<open>alloc_size * 0.25 + 1\<close> bytes more, rounded down, every other time, and copies the
  \<open>encoded_index\<close> bytes written so far.
\<close>

definition ReallocateBuffer_rle :: "RleCompressor \<Rightarrow> error + RleCompressor" where
  "ReallocateBuffer_rle c =
     (let new_alloc = (if encoded_alloc c = 0 then alloc_size c
                       else encoded_alloc c + (alloc_size c div 4 + 1))
      in if new_alloc < encoded_index c then Inl OutOfBounds
         else Inr (c\<lparr>encoded_alloc := new_alloc\<rparr>))"

text \<open>
  \<open>encoded_buff[encoded_index++] = v\<close>, and a sequence of such writes.
\<close>

definition write_byte :: "RleCompressor \<Rightarrow> byte \<Rightarrow> error + RleCompressor" where
  "write_byte c v =
     (if encoded_alloc c \<le> encoded_index c then Inl OutOfBounds
      else Inr (c\<lparr>encoded_buff := encoded_buff c @ [v]\<rparr>))"

fun write_bytes :: "RleCompressor \<Rightarrow> byte list \<Rightarrow> error + RleCompressor" where
  "write_bytes c [] = Inr c"
| "write_bytes c (v # vs) = bind_error (write_byte c v) (\<lambda>c1. write_bytes c1 vs)"

text \<open>
  The locals \<open>group_vec\<close> and \<open>group\<close> (here \<open>grp\<close>) of the scanning functions,
  passed by reference, travel with the object as a triple.
\<close>

type_synonym scan_state = "RleCompressor \<times> byte list \<times> byte"

definition set_bit_u8 :: "byte \<Rightarrow> nat \<Rightarrow> byte" where
  "set_bit_u8 b i = b OR ucast (push_bit i (1 :: u64))"

definition appendToBuff ::
  "scan_state \<Rightarrow> byte \<Rightarrow> bool \<Rightarrow> bool \<Rightarrow> byte option \<Rightarrow> error + scan_state" where
  "appendToBuff st v counter end_push settings =
     (case st of (c, group_vec, grp) \<Rightarrow>
        bind_error (if encoded_alloc c \<le> encoded_index c + (UINT8_T_SIZE + 1)
                    then ReallocateBuffer_rle c else Inr c) (\<lambda>c1.
          (case settings of
             Some s \<Rightarrow> bind_error (write_byte c1 s) (\<lambda>c2. Inr (c2, group_vec, grp))
           | None \<Rightarrow>
               (let grp1 = (if counter then set_bit_u8 grp (length group_vec) else grp);
                    group_vec1 = (if \<not> end_push then group_vec @ [v] else group_vec)
                in if length group_vec1 = UINT8_T_SIZE \<or> end_push
                   then bind_error (write_bytes c1 (grp1 # group_vec1)) (\<lambda>c2. Inr (c2, [], 0))
                   else Inr (c1, group_vec1, grp1)))))"

function counter_values_loop :: "u64 \<Rightarrow> byte list" where
  "counter_values_loop counter =
     (if 0 < counter
      then ucast (counter AND ucast MAX_COUNTER_VAL) # counter_values_loop (drop_bit 8 counter)
      else [])"
  by pat_completeness auto
termination
proof (relation "measure unat")
  show "wf (measure unat)" by simp
next
  fix counter :: u64
  assume "0 < counter"
  then have "unat counter \<noteq> 0" by (simp add: unat_gt_0)
  then have "unat counter div 2 ^ 8 < unat counter" by simp
  then show "(drop_bit 8 counter, counter) \<in> measure unat"
    by (simp add: drop_bit_eq_div unat_div)
qed

text \<open>
  \<open>appendCounterValue\<close>: the \<open>for\<close> loop hands the counter values to
  \<open>appendToBuff\<close> from the last to the first (\<open>append_counters\<close> on the reversed
  vector), then the value follows. The result carries the new value of \<open>counter\<close>.
\<close>

fun append_counters :: "scan_state \<Rightarrow> byte list \<Rightarrow> error + scan_state" where
  "append_counters st [] = Inr st"
| "append_counters st (x # xs) =
     bind_error (appendToBuff st x True False None) (\<lambda>st1. append_counters st1 xs)"

definition appendCounterValue :: "scan_state \<Rightarrow> byte \<Rightarrow> u64 \<Rightarrow> error + (scan_state \<times> u64)" where
  "appendCounterValue st v counter =
     (if 1 < counter then
        (let counter_values = (if counter = 2 then [0] else []) @ counter_values_loop (counter - 2)
         in bind_error (append_counters st (rev counter_values)) (\<lambda>st1.
            bind_error (appendToBuff st1 v False False None) (\<lambda>st2. Inr (st2, 1))))
      else bind_error (appendToBuff st v False False None) (\<lambda>st1. Inr (st1, counter)))"

text \<open>
  The scanning loops visit the pixels at a list of positions after the first one:
  \<open>1, \<dots>, size - 1\<close> for the horizontal scan, the column-major positions for the
  vertical one. The state is the output triple, the current \<open>pixel\<close> and \<open>counter\<close>.
\<close>

fun scan_loop ::
  "byte list \<Rightarrow> nat list \<Rightarrow> scan_state \<times> byte \<times> u64 \<Rightarrow> error + (scan_state \<times> byte \<times> u64)" where
  "scan_loop buf [] s = Inr s"
| "scan_loop buf (i # is) (st, pixel, counter) =
     (if length buf \<le> i then Inl OutOfBounds
      else if buf ! i = pixel then scan_loop buf is (st, pixel, counter + 1)
      else bind_error (appendCounterValue st pixel counter) (\<lambda>(st1, counter1).
             scan_loop buf is (st1, buf ! i, counter1)))"

text \<open>
  The end of both scanning functions: the last run, then the open group.
\<close>

definition finish_scan :: "scan_state \<times> byte \<times> u64 \<Rightarrow> error + RleCompressor" where
  "finish_scan s =
     (case s of (st, pixel, counter) \<Rightarrow>
        bind_error (appendCounterValue st pixel counter) (\<lambda>(st1, counter1).
          (case st1 of (c, group_vec, grp) \<Rightarrow>
             if 0 < length group_vec
             then bind_error (appendToBuff st1 UINT8_T_PADDING False True None)
                    (\<lambda>st2. Inr (fst st2))
             else Inr c)))"

definition HorizontalScanning ::
  "RleCompressor \<Rightarrow> byte list \<Rightarrow> u64 \<Rightarrow> u64 \<Rightarrow> error + RleCompressor" where
  "HorizontalScanning c buf width height =
     (case buf of
        [] \<Rightarrow> Inl OutOfBounds
      | b # bs \<Rightarrow>
          bind_error (scan_loop buf [1..<unat (width * height)] ((c, [], 0), b, 1)) finish_scan)"

definition vertical_positions :: "u64 \<Rightarrow> u64 \<Rightarrow> nat list" where
  "vertical_positions width height =
     concat (map (\<lambda>x. map (\<lambda>y. unat (word_of_nat y * width + word_of_nat x :: u64))
                          [0..<unat height])
                 [0..<unat width])"

text \<open>
  With an empty image (\<open>width = 0\<close> or \<open>height = 0\<close>) the loops of
  \<open>VerticalScanning\<close> never assign \<open>pixel\<close>, which is then used uninitialised.
\<close>

definition VerticalScanning ::
  "RleCompressor \<Rightarrow> byte list \<Rightarrow> u64 \<Rightarrow> u64 \<Rightarrow> error + RleCompressor" where
  "VerticalScanning c buf width height =
     (case vertical_positions width height of
        [] \<Rightarrow> Inl OutOfBounds
      | p # ps \<Rightarrow>
          (case buf of
             [] \<Rightarrow> Inl OutOfBounds
           | b # bs \<Rightarrow> bind_error (scan_loop buf ps ((c, [], 0), b, 1)) finish_scan))"

function dimension_bytes :: "u32 \<Rightarrow> byte list" where
  "dimension_bytes w =
     (if ucast MAX_COUNTER_VAL < w
      then ucast (w AND ucast MAX_COUNTER_VAL) # dimension_bytes (drop_bit 8 w)
      else [ucast (w AND ucast MAX_COUNTER_VAL)])"
  by pat_completeness auto
termination
proof (relation "measure unat")
  show "wf (measure unat)" by simp
next
  fix w :: u32
  assume "ucast MAX_COUNTER_VAL < w"
  then have "unat w \<noteq> 0" by (simp add: word_less_nat_alt)
  then have "unat w div 2 ^ 8 < unat w" by simp
  then show "(drop_bit 8 w, w) \<in> measure unat"
    by (simp add: drop_bit_eq_div unat_div)
qed

text \<open>
  \<open>appendSettingsToBuff\<close>: \<open>header_bytes\<close> are the bytes it writes, the settings
  byte with the two counts and the bytes of width and height, most significant
  first. \<open>ReallocateBuffer\<close> is called once, when the array has fewer than
  \<open>count_w + count_h + 4\<close> bytes, whatever size that call provides.
\<close>

definition header_bytes :: "byte \<Rightarrow> u32 \<Rightarrow> u32 \<Rightarrow> byte list" where
  "header_bytes settings width height =
     (let vec_w = dimension_bytes width;
          vec_h = dimension_bytes height;
          count_w = (word_of_nat (length vec_w - 1) :: byte);
          count_h = (word_of_nat (length vec_h - 1) :: byte);
          settings1 = settings OR push_bit 3 count_w OR count_h
      in [settings1] @ rev vec_w @ rev vec_h)"

definition appendSettingsToBuff ::
  "RleCompressor \<Rightarrow> byte \<Rightarrow> u32 \<Rightarrow> u32 \<Rightarrow> error + RleCompressor" where
  "appendSettingsToBuff c settings width height =
     (let count_w = length (dimension_bytes width) - 1;
          count_h = length (dimension_bytes height) - 1
      in bind_error (if encoded_alloc c < 1 + (count_w + 1 + count_h + 1) + 1
                     then ReallocateBuffer_rle c else Inr c) (\<lambda>c1.
           write_bytes c1 (header_bytes settings width height)))"

definition SequenceScanning ::
  "RleCompressor \<Rightarrow> byte list \<Rightarrow> u64 \<Rightarrow> u64 \<Rightarrow> bool \<Rightarrow> error + RleCompressor" where
  "SequenceScanning c buf width height input_preprocessing =
     (let settings = (if input_preprocessing then SCANNING_MASK OR MODEL_MASK else SCANNING_MASK)
      in bind_error (appendSettingsToBuff c settings (ucast width) (ucast height)) (\<lambda>c1.
           HorizontalScanning c1 buf width height))"

text \<open>
  \<open>AdaptiveScanning\<close> keeps the horizontal result aside, resets the output of the
  object, scans vertically and puts the horizontal result back when it is shorter.
\<close>

definition AdaptiveScanning ::
  "RleCompressor \<Rightarrow> byte list \<Rightarrow> u64 \<Rightarrow> u64 \<Rightarrow> bool \<Rightarrow> error + RleCompressor" where
  "AdaptiveScanning c buf width height input_preprocessing =
     (let horizontal_settings =
            (if input_preprocessing then SCANNING_MASK OR MODEL_MASK else SCANNING_MASK);
          vertical_settings = (if input_preprocessing then MODEL_MASK else 0)
      in
        bind_error (appendSettingsToBuff c horizontal_settings (ucast width) (ucast height))
          (\<lambda>c1.
        bind_error (HorizontalScanning c1 buf width height) (\<lambda>tmp.
        bind_error (appendSettingsToBuff (tmp\<lparr>encoded_buff := [], encoded_alloc := 0\<rparr>)
                      vertical_settings (ucast width) (ucast height)) (\<lambda>c2.
        bind_error (VerticalScanning c2 buf width height) (\<lambda>c3.
          if encoded_index c3 \<le> encoded_index tmp then Inr c3
          else Inr (c3\<lparr>encoded_buff := encoded_buff tmp,
                       encoded_alloc := encoded_alloc tmp\<rparr>))))))"

subsection \<open>Decompressor (rle\_decompressor.cpp)\<close>

text \<open>
  The decompressor reads the array \<open>buf\<close> it was given together with a \<open>size\<close>.
  Only the group-byte loop of \<open>GetValCount\<close> compares the read position with
  \<open>size\<close>; every other read is unchecked, and is \<open>OutOfBounds\<close> in the model when
  it leaves the array. The fields \<open>buffer\<close>, \<open>size\<close> and \<open>index\<close> of the class
  are the arguments \<open>buf\<close>, \<open>sz\<close> and \<open>idx\<close> here.
\<close>

datatype inner_result = Found u64 byte nat nat | Exhausted nat u64 bool

function get_val_inner ::
  "byte list \<Rightarrow> nat \<Rightarrow> nat \<Rightarrow> byte \<Rightarrow> u64 \<Rightarrow> bool \<Rightarrow> error + inner_result" where
  "get_val_inner buf idx bit_idx byte count count_bit =
     (if bit_idx < UINT8_T_SIZE then
        (if byte AND push_bit bit_idx FIRST_BIT_MASK \<noteq> 0 then
           (if length buf \<le> idx then Inl OutOfBounds
            else get_val_inner buf (idx + 1) (bit_idx + 1) byte
                   (push_bit UINT8_T_SIZE (count OR ucast (buf ! idx))) True)
         else
           (if length buf \<le> idx then Inl OutOfBounds
            else Inr (Found (if count_bit then drop_bit UINT8_T_SIZE count + 2 else 1)
                            (buf ! idx) (idx + 1) (bit_idx + 1))))
      else Inr (Exhausted idx count count_bit))"
  by pat_completeness auto
termination
  by (relation "measure (\<lambda>(buf, idx, bit_idx, byte, count, count_bit). UINT8_T_SIZE - bit_idx)")
     auto

declare get_val_inner.simps [simp del]

lemma get_val_inner_idx:
  "get_val_inner buf idx bit_idx byte count count_bit = Inr r \<Longrightarrow>
     (case r of Found c v idx2 bit_idx2 \<Rightarrow> idx < idx2 | Exhausted idx2 c cb \<Rightarrow> idx \<le> idx2)"
proof (induction buf idx bit_idx byte count count_bit rule: get_val_inner.induct)
  case (1 buf idx bit_idx byte count count_bit)
  note eq = get_val_inner.simps [of buf idx bit_idx byte count count_bit]
  show ?case
  proof (cases "bit_idx < UINT8_T_SIZE \<and> byte AND push_bit bit_idx FIRST_BIT_MASK \<noteq> 0
                  \<and> \<not> length buf \<le> idx")
    case False
    with "1.prems" show ?thesis
      by (auto simp: eq split: if_splits)
  next
    case True
    with "1.prems"
    have "get_val_inner buf (idx + 1) (bit_idx + 1) byte
            (push_bit UINT8_T_SIZE (count OR ucast (buf ! idx))) True = Inr r"
      by (simp add: eq)
    with "1.IH" True
    have "case r of Found c v idx2 bit_idx2 \<Rightarrow> idx + 1 < idx2
                  | Exhausted idx2 c cb \<Rightarrow> idx + 1 \<le> idx2"
      by blast
    then show ?thesis by (cases r) simp_all
  qed
qed

lemma get_val_inner_Exhausted_idx:
  "get_val_inner buf idx bit_idx byte count count_bit = Inr (Exhausted idx' count' count_bit')
     \<Longrightarrow> idx \<le> idx'"
  by (drule get_val_inner_idx) simp

lemma get_val_inner_Found_idx:
  "get_val_inner buf idx bit_idx byte count count_bit = Inr (Found c v idx' bit_idx')
     \<Longrightarrow> idx < idx'"
  by (drule get_val_inner_idx) simp

text \<open>
  \<open>GetValCount\<close>: the result is \<open>None\<close> for \<open>false\<close> and the pair \<open>(count, val)\<close>
  for \<open>true\<close>, with the new values of \<open>index\<close>, \<open>bit_index\<close> (here \<open>bit_idx\<close>) and \<open>byte\<close>.
\<close>

function get_val_loop ::
  "byte list \<Rightarrow> nat \<Rightarrow> nat \<Rightarrow> nat \<Rightarrow> byte \<Rightarrow> u64 \<Rightarrow> bool \<Rightarrow>
     error + ((u64 \<times> byte) option \<times> nat \<times> nat \<times> byte)" where
  "get_val_loop buf sz idx bit_idx byte count count_bit =
     (if idx < sz then
        (if bit_idx = 0 \<and> length buf \<le> idx then Inl OutOfBounds
         else
           (let byte1 = (if bit_idx = 0 then buf ! idx else byte);
                idx1 = (if bit_idx = 0 then idx + 1 else idx)
            in case get_val_inner buf idx1 bit_idx byte1 count count_bit of
                 Inl e \<Rightarrow> Inl e
               | Inr (Found c v idx2 bit_idx2) \<Rightarrow> Inr (Some (c, v), idx2, bit_idx2, byte1)
               | Inr (Exhausted idx2 count2 count_bit2) \<Rightarrow>
                   get_val_loop buf sz idx2 0 byte1 count2 count_bit2))
      else Inr (None, idx, bit_idx, byte))"
  by pat_completeness auto
termination
  apply (relation "measure (\<lambda>(buf, sz, idx, bit_idx, byte, count, count_bit).
                              2 * (sz - idx) + (if bit_idx = 0 then 0 else 1))")
   apply simp
  apply (auto dest!: get_val_inner_Exhausted_idx split: if_splits)
  done

declare get_val_loop.simps [simp del]

definition GetValCount ::
  "byte list \<Rightarrow> nat \<Rightarrow> nat \<Rightarrow> nat \<Rightarrow> byte \<Rightarrow>
     error + ((u64 \<times> byte) option \<times> nat \<times> nat \<times> byte)" where
  "GetValCount buf sz idx bit_idx byte = get_val_loop buf sz idx bit_idx byte 0 False"

definition memset :: "byte list \<Rightarrow> nat \<Rightarrow> byte \<Rightarrow> nat \<Rightarrow> byte list" where
  "memset dst at v n = take at dst @ replicate n v @ drop (at + n) dst"

lemma get_val_loop_Some_idx:
  "get_val_loop buf sz idx bit_idx byte count count_bit = Inr (Some p, idx', bit_idx', byte')
     \<Longrightarrow> idx < idx' \<and> idx < sz"
proof (induction buf sz idx bit_idx byte count count_bit rule: get_val_loop.induct)
  case (1 buf sz idx bit_idx byte count count_bit)
  note eq = get_val_loop.simps [of buf sz idx bit_idx byte count count_bit]
  from "1.prems" have lt: "idx < sz"
    by (simp add: eq split: if_splits)
  from "1.prems" lt have nb: "\<not> (bit_idx = 0 \<and> length buf \<le> idx)"
    by (simp add: eq split: if_splits)
  define byte1 where "byte1 = (if bit_idx = 0 then buf ! idx else byte)"
  define idx1 where "idx1 = (if bit_idx = 0 then idx + 1 else idx)"
  have le: "idx \<le> idx1" by (simp add: idx1_def)
  show ?case
  proof (cases "get_val_inner buf idx1 bit_idx byte1 count count_bit")
    case (Inl e)
    with "1.prems" lt nb show ?thesis
      by (simp add: eq byte1_def idx1_def Let_def)
  next
    case (Inr r)
    show ?thesis
    proof (cases r)
      case (Found c v idx2 bit_idx2)
      from Inr Found have "idx1 < idx2"
        using get_val_inner_Found_idx by blast
      with le lt show ?thesis
        using "1.prems" nb Inr Found by (simp add: eq byte1_def idx1_def Let_def)
    next
      case (Exhausted idx2 count2 count_bit2)
      with Inr have "idx1 \<le> idx2"
        using get_val_inner_Exhausted_idx by blast
      moreover
      from "1.prems" lt nb Inr Exhausted
      have "get_val_loop buf sz idx2 0 byte1 count2 count_bit2
              = Inr (Some p, idx', bit_idx', byte')"
        by (simp add: eq byte1_def idx1_def Let_def)
      with "1.IH" [OF lt nb byte1_def idx1_def Inr Exhausted]
      have "idx2 < idx'" by simp
      ultimately show ?thesis using le lt by simp
    qed
  qed
qed

text \<open>
  \<open>DecompressHorizontally\<close>. The state is the read position with the group cursor,
  the output array and \<open>dec_buffer_index\<close>; \<open>dec_buffer_alloc\<close> is the length of
  the array. A count is at most \<open>2 ^ 56 + 1\<close> and the index at most the allocation,
  so the sum \<open>dec_buffer_index + count\<close> does not wrap.
\<close>

function decompress_h_loop ::
  "byte list \<Rightarrow> nat \<Rightarrow> nat \<Rightarrow> nat \<Rightarrow> byte \<Rightarrow> byte list \<Rightarrow> nat \<Rightarrow> error + (byte list \<times> nat)" where
  "decompress_h_loop buf sz idx bit_idx byte dec_buffer dec_buffer_index =
     (case GetValCount buf sz idx bit_idx byte of
        Inl e \<Rightarrow> Inl e
      | Inr (None, idx1, bit_idx1, byte1) \<Rightarrow> Inr (dec_buffer, dec_buffer_index)
      | Inr (Some (count, v), idx1, bit_idx1, byte1) \<Rightarrow>
          if length dec_buffer < dec_buffer_index + unat count then
            Inr (memset dec_buffer dec_buffer_index v (length dec_buffer - dec_buffer_index),
                 length dec_buffer)
          else decompress_h_loop buf sz idx1 bit_idx1 byte1
                 (memset dec_buffer dec_buffer_index v (unat count))
                 (dec_buffer_index + unat count))"
  by pat_completeness auto
termination
  apply (relation "measure (\<lambda>(buf, sz, idx, bit_idx, byte, dec_buffer, dec_buffer_index). sz - idx)")
   apply simp
  apply (auto simp: GetValCount_def dest!: get_val_loop_Some_idx)
  done


definition DecompressHorizontally ::
  "byte list \<Rightarrow> nat \<Rightarrow> nat \<Rightarrow> byte list \<Rightarrow> error + (bool \<times> byte list \<times> nat)" where
  "DecompressHorizontally buf sz idx dec_buffer =
     bind_error (decompress_h_loop buf sz idx 0 0 dec_buffer 0) (\<lambda>(dec_buffer1, dec_buffer_index).
       Inr (dec_buffer_index = length dec_buffer, dec_buffer1, dec_buffer_index))"

text \<open>
  \<open>DecompressVertically\<close>: the inner \<open>for\<close> loop writes \<open>count\<close> pixels along the
  columns; \<open>None\<close> is its \<open>return false\<close>. The position \<open>y * width + x\<close> is
  computed in \<open>size_t\<close>.
\<close>

fun vertical_fill ::
  "u64 \<Rightarrow> u64 \<Rightarrow> byte \<Rightarrow> nat \<Rightarrow> byte list \<times> u64 \<times> u64 \<times> nat \<Rightarrow>
     error + (byte list \<times> u64 \<times> u64 \<times> nat) option" where
  "vertical_fill width height v 0 s = Inr (Some s)"
| "vertical_fill width height v (Suc n) (dec_buffer, x, y, dec_buffer_index) =
     (let at = unat (y * width + x) in
        if unat (width * height) \<le> at then Inr None
        else if length dec_buffer \<le> at then Inl OutOfBounds
        else vertical_fill width height v n
               (dec_buffer[at := v],
                if y + 1 = height then x + 1 else x,
                if y + 1 = height then 0 else y + 1,
                at))"

function decompress_v_loop ::
  "byte list \<Rightarrow> nat \<Rightarrow> nat \<Rightarrow> nat \<Rightarrow> byte \<Rightarrow> u64 \<Rightarrow> u64 \<Rightarrow> byte list \<times> u64 \<times> u64 \<times> nat \<Rightarrow>
     error + (byte list \<times> u64 \<times> u64 \<times> nat) option" where
  "decompress_v_loop buf sz idx bit_idx byte width height s =
     (case GetValCount buf sz idx bit_idx byte of
        Inl e \<Rightarrow> Inl e
      | Inr (None, idx1, bit_idx1, byte1) \<Rightarrow> Inr (Some s)
      | Inr (Some (count, v), idx1, bit_idx1, byte1) \<Rightarrow>
          (case vertical_fill width height v (unat count) s of
             Inl e \<Rightarrow> Inl e
           | Inr None \<Rightarrow> Inr None
           | Inr (Some s1) \<Rightarrow> decompress_v_loop buf sz idx1 bit_idx1 byte1 width height s1))"
  by pat_completeness auto
termination
  apply (relation "measure (\<lambda>(buf, sz, idx, bit_idx, byte, width, height, s). sz - idx)")
   apply simp
  apply (auto simp: GetValCount_def dest!: get_val_loop_Some_idx)
  done


definition DecompressVertically ::
  "byte list \<Rightarrow> nat \<Rightarrow> nat \<Rightarrow> byte list \<Rightarrow> u64 \<Rightarrow> u64 \<Rightarrow> error + (bool \<times> byte list \<times> nat)" where
  "DecompressVertically buf sz idx dec_buffer width height =
     bind_error (decompress_v_loop buf sz idx 0 0 width height (dec_buffer, 0, 0, 0)) (\<lambda>r.
       case r of
         None \<Rightarrow> Inr (False, dec_buffer, 0)
       | Some (dec_buffer1, x, y, dec_buffer_index) \<Rightarrow>
           if word_of_nat dec_buffer_index \<noteq> width * height - 1
           then Inr (False, dec_buffer1, dec_buffer_index)
           else Inr (True, dec_buffer1, unat (width * height)))"

fun read_dimension :: "byte list \<Rightarrow> nat list \<Rightarrow> nat \<Rightarrow> u32 \<Rightarrow> error + u32" where
  "read_dimension buf [] limit w = Inr w"
| "read_dimension buf (i # is) limit w =
     (if length buf \<le> i + 1 then Inl OutOfBounds
      else read_dimension buf is limit
             (if i + 1 < limit then push_bit 8 (w OR ucast (buf ! (i + 1)))
              else w OR ucast (buf ! (i + 1))))"

definition GetSize_rle :: "byte list \<Rightarrow> nat \<Rightarrow> error + (u32 \<times> u32 \<times> nat) option" where
  "GetSize_rle buf sz =
     (case buf of
        [] \<Rightarrow> Inl OutOfBounds
      | b # bs \<Rightarrow>
          (let count_w = unat (drop_bit 3 (b AND WIDTH_COUNT_MASK) + 1);
               count_h = unat ((b AND HEIGHT_COUNT_MASK) + 1);
               count = unat (drop_bit 3 (b AND WIDTH_COUNT_MASK) + 1 + ((b AND HEIGHT_COUNT_MASK) + 1))
           in if sz < count_h + count_w then Inr None
              else
                bind_error (read_dimension buf [0..<count_w] count_w 0) (\<lambda>width.
                bind_error (read_dimension buf [count_w..<count] count 0) (\<lambda>height.
                  Inr (Some (width, height, count_w + count_h + 1))))))"

text \<open>
  \<open>RleDecompressor::Decompress\<close> returns the success flag, \<open>convert_from_model\<close>,
  the output array and \<open>dec_buffer_index\<close>. The allocation \<open>width * height\<close> is a
  product of two \<open>uint32_t\<close>. The array comes from \<open>malloc\<close>; its initial content
  is written as zero here.
\<close>

definition Decompress ::
  "byte list \<Rightarrow> nat \<Rightarrow> error + (bool \<times> bool \<times> byte list \<times> nat)" where
  "Decompress buf sz =
     (if sz = 0 then Inr (False, False, [], 0)
      else
        (case buf of
           [] \<Rightarrow> Inl OutOfBounds
         | b # bs \<Rightarrow>
             (let horizontal_decompress = (b AND SCANNING_MASK \<noteq> 0);
                  convert_from_model = (b AND MODEL_MASK \<noteq> 0)
              in bind_error (GetSize_rle buf sz) (\<lambda>r.
                   case r of
                     None \<Rightarrow> Inr (False, convert_from_model, [], 0)
                   | Some (width, height, idx) \<Rightarrow>
                       bind_error
                         (if horizontal_decompress
                          then DecompressHorizontally buf sz idx
                                 (replicate (unat (width * height)) 0)
                          else DecompressVertically buf sz idx
                                 (replicate (unat (width * height)) 0) (ucast width) (ucast height))
                         (\<lambda>(ok, dec_buffer, dec_buffer_index).
                            Inr (ok, convert_from_model, dec_buffer, dec_buffer_index))))))"

section \<open>Pipeline (main.cpp)\<close>

text \<open>
  \<open>compress\<close> is the branch of \<open>main\<close> taken with \<open>-c\<close>: the result is the content
  of the output file. \<open>decompress\<close> is the branch taken with \<open>-d\<close>: \<open>None\<close> is an
  exit with \<open>-1\<close> after a stage reported failure, otherwise the raw image written.
  \<open>parse_arguments\<close> refuses a width of zero before anything is read.
\<close>

definition encoded_file :: "HuffmanCoder \<Rightarrow> byte \<Rightarrow> error + byte list" where
  "encoded_file hc settings =
     (if alloc hc < GetSize hc then Inl OutOfBounds
      else Inr (settings # take (GetSize hc) (GetBuffer hc)))"

definition compress :: "byte list \<Rightarrow> u32 \<Rightarrow> bool \<Rightarrow> bool \<Rightarrow> (error + byte list) option" where
  "compress x width input_preprocessing adaptive_sequence_scanning =
     (if width = 0 then Some (Inl InvalidArgument)
      else
        (let height = (word_of_nat (length x div unat width) :: u32);
             pixels = (if input_preprocessing then Preprocess x else x);
             rle_compressor = RleCompressor_new width height
         in
         bind_run (lift_error
                     (if adaptive_sequence_scanning
                      then AdaptiveScanning rle_compressor pixels (ucast width) (ucast height)
                             input_preprocessing
                      else SequenceScanning rle_compressor pixels (ucast width) (ucast height)
                             input_preprocessing))
           (\<lambda>rle.
         bind_run (lift_error HuffmanCoder_new) (\<lambda>hc.
         bind_run (Encode hc (encoded_buff rle) (encoded_index rle)) (\<lambda>(hc1, settings).
           lift_error (encoded_file hc1 settings))))))"

definition decompress :: "byte list \<Rightarrow> (error + byte list option) option" where
  "decompress file =
     bind_run (Decode HuffmanDecoder_new file (length file)) (\<lambda>(ok, d).
       if \<not> ok then Some (Inr None)
       else
         bind_run (lift_error (Decompress (GetBuffer d) (GetSize_dec d)))
           (\<lambda>(ok1, convert_from_model, dec_buffer, dec_buffer_index).
              if \<not> ok1 then Some (Inr None)
              else
                bind_run (lift_error (if convert_from_model
                                      then Depreprocess dec_buffer dec_buffer_index
                                      else Inr dec_buffer)) (\<lambda>image.
                  Some (Inr (Some (take dec_buffer_index image))))))"


declare counter_values_loop.simps [simp del] dimension_bytes.simps [simp del]
  decompress_h_loop.simps [simp del] decompress_v_loop.simps [simp del]

section \<open>The RLE stream format of the specification\<close>

text \<open>
  An entry of the payload is a byte with its class: \<open>True\<close> for a counter fragment,
  \<open>False\<close> for a literal value. Bit \<open>i\<close> of a group byte is the class of the
  \<open>i\<close>-th byte after it, the bits beyond the bytes of the group are zero; a group
  holds at most eight bytes. \<open>pack\<close> is the payload of a list of entries.
\<close>

type_synonym entry = "bool \<times> byte"

fun group_byte :: "entry list \<Rightarrow> byte" where
  "group_byte [] = 0"
| "group_byte (e # es) = (if fst e then 1 else 0) OR push_bit 1 (group_byte es)"

function pack :: "entry list \<Rightarrow> byte list" where
  "pack es =
     (if es = [] then []
      else group_byte (take 8 es) # map snd (take 8 es) @ pack (drop 8 es))"
  by pat_completeness auto
termination
  by (relation "measure length") auto

declare pack.simps [simp del]

text \<open>
  A run of length \<open>n\<close> of the byte \<open>v\<close>: no counter for \<open>n = 1\<close>, the counter
  byte 0 for \<open>n = 2\<close>, the base-256 digits of \<open>n - 2\<close>, most significant first
  and without leading zeros, for \<open>n \<ge> 3\<close>; then the value.
\<close>

function be_digits :: "nat \<Rightarrow> byte list" where
  "be_digits m = (if m = 0 then [] else be_digits (m div 256) @ [of_nat (m mod 256)])"
  by pat_completeness auto
termination
  by (relation "measure id") auto

declare be_digits.simps [simp del]

definition be_value :: "byte list \<Rightarrow> nat" where
  "be_value ds = foldl (\<lambda>a d. a * 256 + unat d) 0 ds"

definition run_entries :: "nat \<Rightarrow> byte \<Rightarrow> entry list" where
  "run_entries n v =
     (if n = 1 then [(False, v)]
      else if n = 2 then [(True, 0), (False, v)]
      else map (Pair True) (be_digits (n - 2)) @ [(False, v)])"

subsection \<open>Runs of a pixel sequence\<close>



definition entries_of :: "(nat \<times> byte) list \<Rightarrow> entry list" where
  "entries_of rs = concat (map (\<lambda>(n, v). run_entries n v) rs)"


subsection \<open>The state of the compressor as a list of entries\<close>







subsection \<open>Reading the payload\<close>

text \<open>
  The pairs of a stream: what the \<open>while (GetValCount(count, val, bit_index, byte))\<close>
  loops of the decompressor receive, call after call, until \<open>GetValCount\<close> returns
  \<open>false\<close>.
\<close>

function decode_pairs ::
  "byte list \<Rightarrow> nat \<Rightarrow> nat \<Rightarrow> nat \<Rightarrow> byte \<Rightarrow> error + (u64 \<times> byte) list" where
  "decode_pairs buf sz idx bit_idx byte =
     (case GetValCount buf sz idx bit_idx byte of
        Inl e \<Rightarrow> Inl e
      | Inr (None, idx1, bit_idx1, byte1) \<Rightarrow> Inr []
      | Inr (Some (count, v), idx1, bit_idx1, byte1) \<Rightarrow>
          (case decode_pairs buf sz idx1 bit_idx1 byte1 of
             Inl e \<Rightarrow> Inl e
           | Inr ps \<Rightarrow> Inr ((count, v) # ps)))"
  by pat_completeness auto
termination
  apply (relation "measure (\<lambda>(buf, sz, idx, bit_idx, byte). sz - idx)")
   apply simp
  apply (auto simp: GetValCount_def dest!: get_val_loop_Some_idx)
  done

declare decode_pairs.simps [simp del]

text \<open>
  The accumulator of \<open>GetValCount\<close> after the counter fragments \<open>ds\<close>, and the count
  it returns for them.
\<close>

definition fragments_acc :: "u64 \<Rightarrow> byte list \<Rightarrow> u64" where
  "fragments_acc c ds = foldl (\<lambda>c d. push_bit UINT8_T_SIZE (c OR ucast d)) c ds"

definition run_count :: "u64 \<Rightarrow> bool \<Rightarrow> byte list \<Rightarrow> u64" where
  "run_count c cb ds =
     (if cb \<or> ds \<noteq> [] then drop_bit UINT8_T_SIZE (fragments_acc c ds) + 2 else 1)"

text \<open>
  \<open>positioned buf idx k byte es\<close>: the reader at \<open>idx\<close>, with bit cursor \<open>k\<close> in the
  group byte \<open>byte\<close>, has exactly the entries \<open>es\<close> of a packed payload before it.
\<close>

definition positioned :: "byte list \<Rightarrow> nat \<Rightarrow> nat \<Rightarrow> byte \<Rightarrow> entry list \<Rightarrow> bool" where
  "positioned buf idx k byte es \<longleftrightarrow>
     (k = 0 \<and> drop idx buf = pack es) \<or>
     (\<exists>grp rest. 0 < k \<and> k \<le> length grp \<and> length grp \<le> 8 \<and>
        (length grp < 8 \<longrightarrow> rest = []) \<and> byte = group_byte grp \<and> es = drop k grp @ rest \<and>
        drop idx buf = map snd (drop k grp) @ pack rest)"

definition group_step ::
  "byte list \<Rightarrow> nat \<Rightarrow> nat \<Rightarrow> nat \<Rightarrow> byte \<Rightarrow> u64 \<Rightarrow> bool \<Rightarrow>
     error + ((u64 \<times> byte) option \<times> nat \<times> nat \<times> byte)" where
  "group_step buf sz idx k byte c cb =
     (case get_val_inner buf idx k byte c cb of
        Inl e \<Rightarrow> Inl e
      | Inr (Found c1 v idx2 k2) \<Rightarrow> Inr (Some (c1, v), idx2, k2, byte)
      | Inr (Exhausted idx2 c2 cb2) \<Rightarrow> get_val_loop buf sz idx2 0 byte c2 cb2)"

text \<open>
  The pixels a list of pairs stands for.
\<close>

definition expand :: "(u64 \<times> byte) list \<Rightarrow> byte list" where
  "expand ps = concat (map (\<lambda>(c, v). replicate (unat c) v) ps)"

subsection \<open>Headers\<close>

text \<open>
  The header that \<open>appendSettingsToBuff\<close> writes for an image of the given dimensions:
  the settings byte and the bytes of width and height.
\<close>

definition header_size :: "u32 \<Rightarrow> u32 \<Rightarrow> nat" where
  "header_size width height = length (header_bytes 0 width height)"

text \<open>
  The numbers of width and height bytes that a settings byte announces.
\<close>

definition width_bytes :: "byte \<Rightarrow> nat" where
  "width_bytes b = unat (drop_bit 3 (b AND WIDTH_COUNT_MASK)) + 1"

definition height_bytes :: "byte \<Rightarrow> nat" where
  "height_bytes b = unat (b AND HEIGHT_COUNT_MASK) + 1"

section \<open>Auxiliary facts\<close>

subsection \<open>Results with errors\<close>

lemma bind_error_Inl [simp]: "bind_error (Inl e) f = Inl e"
  by (simp add: bind_error_def)

lemma bind_error_Inr [simp]: "bind_error (Inr x) f = f x"
  by (simp add: bind_error_def)

lemma bind_run_None [simp]: "bind_run None f = None"
  by (simp add: bind_run_def)

lemma bind_run_Inl [simp]: "bind_run (Some (Inl e)) f = Some (Inl e)"
  by (simp add: bind_run_def)

lemma bind_run_Inr [simp]: "bind_run (Some (Inr x)) f = f x"
  by (simp add: bind_run_def)



subsection \<open>Evaluation on concrete inputs\<close>

text \<open>
  The definitions are evaluated by rewriting. The congruence rules below make the
  simplifier compute the first argument of a bind, a \<open>let\<close> or a case on a pair
  before it looks at the continuation.
\<close>

lemma bind_error_cong: "m = m' \<Longrightarrow> bind_error m f = bind_error m' f"
  by simp

lemma bind_run_cong: "m = m' \<Longrightarrow> bind_run m f = bind_run m' f"
  by simp

lemma list_update_Cons_numeral: "(x # xs)[numeral v := y] = x # xs[numeral v - 1 := y]"
  by (simp add: numeral_eq_Suc)

lemmas upt_rec_zero_numeral = upt_rec [of 0 "numeral n"] upt_rec [of "Suc m" "numeral n"] for m n

lemmas eval_congs = bind_error_cong bind_run_cong let_weak_cong prod.case_cong_weak

lemmas eval_binds = lift_error_def list_update_Cons_numeral upt_rec_zero_numeral Let_def

lemmas eval_tree = deref_def set_node_def GenNode_def InitTree_def split_NYT_def
  FindPathToRoot.simps find_highest_loop.simps FindHighestBlockNode_def SwapNodes_def
  update_step_def update_tree.simps conv_int32_def conv_uint16_def N_VALUES_def

lemmas eval_coder = store_def fetch_def GetBuffer_def ReallocateBuffer_def AddBits_def
  AddByte_def HuffmanCoder_new_def AddSymbol_def FindSymbol_def encode_symbol_def GetSize_def
  CompareWithRLE_def Encode_def ALLOC_SIZE_def BITS_IN_BYTE_def SETTINGS_BIT_CHECK_def
  PADDING_BITS_MASK_def

lemmas eval_decoder = HuffmanDecoder_new_def ReallocateBuffer_dec_def AddSymbolToBuffer_def
  NextBit_def ReadSymbol_def IsEnd_def IsExternalNode_def AddSymbol_dec_def decode_step_def
  decode_loop.simps pass_through_def Decode_def GetSize_dec_def

lemmas eval_rle_consts = SCANNING_MASK_def MODEL_MASK_def HEIGHT_COUNT_MASK_def
  WIDTH_COUNT_MASK_def FIRST_BIT_MASK_def UINT8_T_SIZE_def UINT8_T_PADDING_def
  MAX_COUNTER_VAL_def

lemmas eval_compressor = encoded_index_def RleCompressor_new_def ReallocateBuffer_rle_def
  write_byte_def set_bit_u8_def appendToBuff_def counter_values_loop.simps
  appendCounterValue_def finish_scan_def HorizontalScanning_def vertical_positions_def
  VerticalScanning_def dimension_bytes.simps header_bytes_def appendSettingsToBuff_def
  SequenceScanning_def AdaptiveScanning_def

lemmas eval_decompressor = get_val_inner.simps get_val_loop.simps GetValCount_def memset_def
  decompress_h_loop.simps DecompressHorizontally_def decompress_v_loop.simps
  DecompressVertically_def GetSize_rle_def Decompress_def

lemmas eval_pipeline = Preprocess_def Depreprocess_def encoded_file_def compress_def
  decompress_def

section \<open>Properties of the differential transform\<close>

lemma length_preprocess_loop: "length (preprocess_loop p xs) = length xs"
  by (induction xs arbitrary: p) simp_all

lemma depreprocess_preprocess_loop:
  "depreprocess_loop p (preprocess_loop p xs) = xs"
  by (induction xs arbitrary: p) simp_all

lemma preprocess_loop_nth:
  "i < length xs \<Longrightarrow> preprocess_loop p xs ! i = xs ! i - (if i = 0 then p else xs ! (i - 1))"
proof (induction xs arbitrary: p i)
  case Nil
  then show ?case by simp
next
  case (Cons x xs)
  show ?case
  proof (cases i)
    case 0
    then show ?thesis by simp
  next
    case (Suc j)
    with Cons.prems have "j < length xs" by simp
    from Cons.IH [OF this, of x] Suc show ?thesis
      by (cases j) simp_all
  qed
qed

text \<open>
  Claim C8: for every byte sequence \<open>x\<close>, \<open>Preprocess\<close> returns a sequence of the
  same length, with the first byte of \<open>x\<close> followed by the differences of adjacent
  bytes, and \<open>Depreprocess\<close> applied to it over its whole length returns \<open>x\<close>. All
  arithmetic is that of \<open>uint8_t\<close>.
\<close>

theorem C8_differential_roundtrip:
  "length (Preprocess x) = length x \<and>
   (\<forall>i<length x. Preprocess x ! i = (if i = 0 then x ! 0 else x ! i - x ! (i - 1))) \<and>
   Depreprocess (Preprocess x) (length x) = Inr x"
proof (cases x)
  case Nil
  then show ?thesis
    by (simp add: Preprocess_def Depreprocess_def)
next
  case (Cons b bs)
  have "Preprocess x ! i = (if i = 0 then x ! 0 else x ! i - x ! (i - 1))" if "i < length x" for i
  proof (cases i)
    case 0
    with Cons show ?thesis by (simp add: Preprocess_def)
  next
    case (Suc j)
    with that Cons have "j < length bs" by simp
    from preprocess_loop_nth [OF this, of b] Suc Cons show ?thesis
      by (cases j) (simp_all add: Preprocess_def)
  qed
  with Cons show ?thesis
    by (simp add: Preprocess_def Depreprocess_def length_preprocess_loop
          depreprocess_preprocess_loop)
qed

theorem C8_differential_roundtrip_witness:
  "Preprocess [200, 3, 255] = [200, 59, 252] \<and>
   list_all (\<lambda>i. Preprocess [200, 3, 255] ! i
                    = (if i = 0 then [200, 3, 255] ! 0 else [200, 3, 255] ! i - [200, 3, 255] ! (i - 1)))
     [0, 1, 2] \<and>
   Depreprocess [200, 59, 252] 3 = Inr [200, 3, 255]"
proof -
  have p: "Preprocess [200, 3, 255] = [200, 59, 252]"
    by (simp add: Preprocess_def)
  have len: "length [200, 3, 255 :: byte] = 3"
    by simp
  note th = C8_differential_roundtrip [of "[200, 3, 255]", unfolded len]
  from th have d: "Depreprocess (Preprocess [200, 3, 255]) 3 = Inr [200, 3, 255]"
    by blast
  from th have a: "Preprocess [200, 3, 255] ! i
                     = (if i = 0 then [200, 3, 255] ! 0 else [200, 3, 255] ! i - [200, 3, 255] ! (i - 1))"
    if "i < 3" for i
    using that by blast
  from a [of 0] a [of 1] a [of 2]
  have "list_all (\<lambda>i. Preprocess [200, 3, 255] ! i
                    = (if i = 0 then [200, 3, 255] ! 0 else [200, 3, 255] ! i - [200, 3, 255] ! (i - 1)))
     [0, 1, 2]"
    by simp
  with p d show ?thesis
    by (simp only: simp_thms)
qed










lemma HuffmanCoder_new_eq:
  "HuffmanCoder_new =
     Inr \<lparr>nodes = [\<lparr>left = None, right = None, parent = None, index = 513, weight = 0,
                      val = 0\<rparr>],
          root = Some 0, NYT = Some 0, buffer = [], alloc = 512, leaf_nodes = (\<lambda>_. None),
          byte_index = 0, bit_index = 0\<rparr>"
  by (simp add: eval_binds eval_tree eval_coder cong: eval_congs)


text \<open>
  Claim C10: for every input buffer, \<open>Decode\<close> called with size 1 takes the
  pass-through branch whatever the settings byte holds, returns true, and leaves an
  empty output with reported size 0.
\<close>

theorem C10_decode_size_one:
  "\<exists>d. Decode HuffmanDecoder_new buf 1 = Some (Inr (True, d)) \<and>
        Decode HuffmanDecoder_new buf 1 = pass_through HuffmanDecoder_new buf 1 \<and>
        buffer d = [] \<and> GetSize_dec d = 0"
  by (simp add: Decode_def pass_through_def GetSize_dec_def)

section \<open>The pipeline on a concrete image\<close>

lemma HuffmanDecoder_new_eq:
  "HuffmanDecoder_new =
     \<lparr>nodes = [\<lparr>left = None, right = None, parent = None, index = 513, weight = 0,
                  val = 0\<rparr>],
      root = Some 0, NYT = Some 0, buffer = [], alloc = 0,
      write_byte_index = 0, read_byte_index = 0, read_bit_index = 0\<rparr>"
  by (simp add: eval_binds eval_tree eval_decoder cong: eval_congs)

lemma adaptive_frame_0121:
  "AdaptiveScanning (RleCompressor_new 4 1) [0, 1, 2, 1] 4 1 False
     = Inr \<lparr>alloc_size = 5, encoded_buff = [0, 4, 1, 0, 0, 1, 2, 1], encoded_alloc = 13\<rparr>"
  by (simp add: eval_binds eval_rle_consts eval_compressor cong: eval_congs)

lemma compress_0121: "compress [0, 1, 2, 1] 4 False True = Some (Inr [9, 0, 64, 2, 236, 15, 40])"
  by (simp add: eval_binds eval_tree eval_coder eval_rle_consts eval_compressor eval_pipeline
        cong: eval_congs)

lemma decode_0121:
  "\<exists>d. Decode HuffmanDecoder_new [9, 0, 64, 2, 236, 15, 40] 7 = Some (Inr (True, d)) \<and>
        take (GetSize_dec d) (GetBuffer d) = [0, 4, 1, 0, 0, 1, 2, 1, 0]"
  by (simp add: eval_binds eval_tree eval_coder eval_decoder cong: eval_congs)

lemma decompress_0121: "decompress [9, 0, 64, 2, 236, 15, 40] = Some (Inr None)"
  by (simp add: eval_binds eval_tree eval_coder eval_decoder eval_rle_consts eval_decompressor
        eval_pipeline nth_append cong: eval_congs)

text \<open>
  Claim C1 at the image \<open>[0, 1, 2, 1]\<close> of width 4, without the model and with
  adaptive scanning: the compressor writes the file \<open>[9, 0, 64, 2, 236, 15, 40]\<close>
  (Huffman coded, one padding bit); the Huffman decoder returns the RLE frame
  \<open>[0, 4, 1, 0, 0, 1, 2, 1]\<close> followed by one byte that was never encoded; the
  RLE decompressor reports failure, and so does the program.
\<close>

theorem C1_roundtrip_fails:
  "compress [0, 1, 2, 1] 4 False True = Some (Inr [9, 0, 64, 2, 236, 15, 40]) \<and>
   AdaptiveScanning (RleCompressor_new 4 1) [0, 1, 2, 1] 4 1 False
     = Inr \<lparr>alloc_size = 5, encoded_buff = [0, 4, 1, 0, 0, 1, 2, 1], encoded_alloc = 13\<rparr> \<and>
   (\<exists>d. Decode HuffmanDecoder_new [9, 0, 64, 2, 236, 15, 40] 7 = Some (Inr (True, d)) \<and>
        take (GetSize_dec d) (GetBuffer d) = [0, 4, 1, 0, 0, 1, 2, 1, 0]) \<and>
   decompress [9, 0, 64, 2, 236, 15, 40] = Some (Inr None)"
  using compress_0121 adaptive_frame_0121 decode_0121 decompress_0121 by blast

section \<open>The tree on a concrete image\<close>

lemma frame_1000:
  "SequenceScanning (RleCompressor_new 1 4) [1, 0, 0, 0] 1 4 False
     = Inr \<lparr>alloc_size = 5, encoded_buff = [128, 1, 4, 2, 1, 1, 0], encoded_alloc = 13\<rparr>"
  by (simp add: eval_binds eval_rle_consts eval_compressor cong: eval_congs)

lemma tree_after_six:
  "\<exists>hc. encode_loop hc0 [128, 1, 4, 2, 1, 1] = Some (Inr hc) \<and>
         (\<exists>ns. tree_order hc = Some (Inr ns) \<and>
               map index ns = [513, 512, 511, 510, 509, 506, 505, 508, 507])"
  if "HuffmanCoder_new = Inr hc0"
  using that unfolding HuffmanCoder_new_eq
  by (auto simp: eval_binds eval_tree eval_coder tree_order_def tree_order_loop.simps
           cong: eval_congs)

lemma tree_after_seven:
  "\<exists>hc. encode_loop hc0 [128, 1, 4, 2, 1, 1, 0] = Some (Inr hc) \<and>
         (\<exists>ns. tree_order hc = Some (Inr ns) \<and>
               map (\<lambda>n. (index n, weight n)) ns =
                 [(513, 8), (512, 5), (511, 3), (510, 3), (509, 2), (506, 2), (505, 1),
                  (508, 1), (507, 1), (504, 1), (503, 0)])"
  if "HuffmanCoder_new = Inr hc0"
  using that unfolding HuffmanCoder_new_eq
  by (auto simp: eval_binds eval_tree eval_coder tree_order_def tree_order_loop.simps
           cong: eval_congs)

lemma indices_decrease_map:
  "indices_decrease ns \<longleftrightarrow> sorted_wrt (\<lambda>a b. b < a) (map index ns)"
  by (simp add: indices_decrease_def sorted_wrt_map)

lemma weights_ordered_map:
  "weights_ordered ns \<longleftrightarrow>
     list_all (\<lambda>a. list_all (\<lambda>b. snd a \<le> snd b \<or> fst b < fst a)
                              (map (\<lambda>n. (index n, weight n)) ns))
              (map (\<lambda>n. (index n, weight n)) ns)"
  by (simp add: weights_ordered_def list_all_iff)

text \<open>
  Claim C2 at the image \<open>[1, 0, 0, 0]\<close> of width 1, whose RLE frame is
  \<open>[128, 1, 4, 2, 1, 1, 0]\<close>: after the sixth byte of the frame the indices along
  the breadth-first traversal are 513, 512, 511, 510, 509, 506, 505, 508, 507, not
  decreasing; after the seventh byte the node of index 506 has weight 2 and the node
  of index 508 has weight 1.
\<close>

theorem C2_tree_invariants_fail:
  "\<exists>hc0 hc6 hc7 ns6 ns7.
     HuffmanCoder_new = Inr hc0 \<and>
     SequenceScanning (RleCompressor_new 1 4) [1, 0, 0, 0] 1 4 False
       = Inr \<lparr>alloc_size = 5, encoded_buff = [128, 1, 4, 2, 1, 1, 0], encoded_alloc = 13\<rparr> \<and>
     encode_loop hc0 [128, 1, 4, 2, 1, 1] = Some (Inr hc6) \<and>
     tree_order hc6 = Some (Inr ns6) \<and>
     map index ns6 = [513, 512, 511, 510, 509, 506, 505, 508, 507] \<and>
     \<not> indices_decrease ns6 \<and>
     encode_loop hc0 [128, 1, 4, 2, 1, 1, 0] = Some (Inr hc7) \<and>
     tree_order hc7 = Some (Inr ns7) \<and>
     map (\<lambda>n. (index n, weight n)) ns7 =
       [(513, 8), (512, 5), (511, 3), (510, 3), (509, 2), (506, 2), (505, 1),
        (508, 1), (507, 1), (504, 1), (503, 0)] \<and>
     \<not> weights_ordered ns7"
proof -
  obtain hc0 where new: "HuffmanCoder_new = Inr hc0"
    by (simp add: HuffmanCoder_new_eq)
  from tree_after_six [OF new] obtain hc6 ns6 where
    six: "encode_loop hc0 [128, 1, 4, 2, 1, 1] = Some (Inr hc6)"
         "tree_order hc6 = Some (Inr ns6)"
         "map index ns6 = [513, 512, 511, 510, 509, 506, 505, 508, 507]"
    by auto
  from tree_after_seven [OF new] obtain hc7 ns7 where
    seven: "encode_loop hc0 [128, 1, 4, 2, 1, 1, 0] = Some (Inr hc7)"
           "tree_order hc7 = Some (Inr ns7)"
           "map (\<lambda>n. (index n, weight n)) ns7 =
              [(513, 8), (512, 5), (511, 3), (510, 3), (509, 2), (506, 2), (505, 1),
               (508, 1), (507, 1), (504, 1), (503, 0)]"
    by auto
  have a: "\<not> indices_decrease ns6"
    by (simp add: indices_decrease_map six(3))
  have b: "\<not> weights_ordered ns7"
    unfolding weights_ordered_map seven(3) by (simp add: word_le_nat_alt)
  show ?thesis
    apply (rule exI [of _ hc0], rule exI [of _ hc6], rule exI [of _ hc7])
    apply (rule exI [of _ ns6], rule exI [of _ ns7])
    using new frame_1000 six seven a b apply (intro conjI)
             apply assumption+
    done
qed

section \<open>Properties of the RLE stream format\<close>

subsection \<open>Digits\<close>

lemma be_value_snoc: "be_value (ds @ [d]) = be_value ds * 256 + unat d"
  by (simp add: be_value_def)

lemma be_value_be_digits: "be_value (be_digits m) = m"
proof (induction m rule: be_digits.induct)
  case (1 m)
  show ?case
  proof (cases "m = 0")
    case True
    then show ?thesis by (simp add: be_digits.simps [of 0] be_value_def)
  next
    case False
    have "unat (of_nat (m mod 256) :: byte) = m mod 256"
      by (simp add: unat_of_nat)
    with False "1.IH" show ?thesis
      by (subst be_digits.simps) (simp add: be_value_snoc)
  qed
qed

lemma of_nat_byte_neq_0: "0 < m \<Longrightarrow> m < 256 \<Longrightarrow> (of_nat m :: byte) \<noteq> 0"
proof
  assume "0 < m" "m < 256" "(of_nat m :: byte) = 0"
  then have "unat (of_nat m :: byte) = 0" by simp
  with \<open>m < 256\<close> have "m = 0" by (simp add: unat_of_nat)
  with \<open>0 < m\<close> show False by simp
qed

lemma be_digits_small: "0 < m \<Longrightarrow> m < 256 \<Longrightarrow> be_digits m = [of_nat m]"
proof -
  assume "0 < m" "m < 256"
  then have "be_digits m = be_digits 0 @ [of_nat m]"
    by (subst be_digits.simps) simp
  then show ?thesis
    by (simp add: be_digits.simps [of 0])
qed

lemma be_digits_hd: "m \<noteq> 0 \<Longrightarrow> be_digits m \<noteq> [] \<and> hd (be_digits m) \<noteq> 0"
proof (induction m rule: be_digits.induct)
  case (1 m)
  show ?case
  proof (cases "m < 256")
    case True
    with "1.prems" show ?thesis
      by (simp add: be_digits_small of_nat_byte_neq_0)
  next
    case False
    then have "m div 256 \<noteq> 0" by simp
    with "1.IH" "1.prems"
    have "be_digits (m div 256) \<noteq> [] \<and> hd (be_digits (m div 256)) \<noteq> 0"
      by simp
    moreover from "1.prems"
    have "be_digits m = be_digits (m div 256) @ [of_nat (m mod 256)]"
      by (subst be_digits.simps) simp
    ultimately show ?thesis by simp
  qed
qed




subsection \<open>Groups\<close>




lemma pack_Nil [simp]: "pack [] = []"
  by (simp add: pack.simps)




subsection \<open>The output triple of the compressor\<close>






subsection \<open>Writing within the capacity\<close>


lemma write_bytes_overflow:
  "encoded_index c \<le> encoded_alloc c \<Longrightarrow> encoded_alloc c < encoded_index c + length vs \<Longrightarrow>
     write_bytes c vs = Inl OutOfBounds"
proof (induction vs arbitrary: c)
  case Nil
  then show ?case by simp
next
  case (Cons v vs)
  show ?case
  proof (cases "encoded_alloc c \<le> encoded_index c")
    case True
    then show ?thesis by (simp add: write_byte_def)
  next
    case False
    let ?c1 = "c\<lparr>encoded_buff := encoded_buff c @ [v]\<rparr>"
    from False have "write_byte c v = Inr ?c1"
      by (simp add: write_byte_def)
    moreover from Cons.prems False
    have "encoded_index ?c1 \<le> encoded_alloc ?c1" "encoded_alloc ?c1 < encoded_index ?c1 + length vs"
      by (simp_all add: encoded_index_def)
    then have "write_bytes ?c1 vs = Inl OutOfBounds"
      by (rule Cons.IH)
    ultimately show ?thesis by simp
  qed
qed




subsection \<open>Runs\<close>




subsection \<open>Scanning\<close>

lemma entries_of_Cons [simp]: "entries_of ((n, v) # rs) = run_entries n v @ entries_of rs"
  by (simp add: entries_of_def)

lemma entries_of_Nil [simp]: "entries_of [] = []"
  by (simp add: entries_of_def)

lemma unat_of_nat_u64: "c < 2 ^ 64 \<Longrightarrow> unat (of_nat c :: u64) = c"
  by (simp add: unat_of_nat)









subsection \<open>Sizes\<close>





lemma length_header_bytes:
  "length (header_bytes settings width height)
     = 1 + length (dimension_bytes width) + length (dimension_bytes height)"
  by (simp add: header_bytes_def Let_def)


lemma dimension_bytes_small: "unat w < 256 \<Longrightarrow> length (dimension_bytes w) = 1"
  by (subst dimension_bytes.simps) (simp add: MAX_COUNTER_VAL_def word_less_nat_alt)

subsection \<open>Vertical positions\<close>



section \<open>Decoding the RLE payload\<close>

lemma get_val_loop_group_step:
  "get_val_loop buf sz idx k byte c cb =
     (if idx < sz then
        (if k = 0 \<and> length buf \<le> idx then Inl OutOfBounds
         else group_step buf sz (if k = 0 then idx + 1 else idx) k
                (if k = 0 then buf ! idx else byte) c cb)
      else Inr (None, idx, k, byte))"
  by (subst get_val_loop.simps)
     (simp add: group_step_def Let_def split: sum.splits inner_result.splits)

subsection \<open>Inside a group\<close>

lemma bit_test: "(byte AND push_bit k FIRST_BIT_MASK \<noteq> 0) = bit byte k"
  unfolding FIRST_BIT_MASK_def by (rule bit_iff_and_push_bit_not_eq_0 [symmetric])

lemma group_byte_bit:
  "i < length es \<Longrightarrow> length es \<le> 8 \<Longrightarrow> bit (group_byte es) i = fst (es ! i)"
proof (induction es arbitrary: i)
  case Nil
  then show ?case by simp
next
  case (Cons e es)
  show ?case
  proof (cases i)
    case 0
    then show ?thesis by (simp add: bit_0 even_or_iff)
  next
    case (Suc j)
    with Cons.prems have "j < length es" "length es \<le> 8" "Suc j < 8" by simp_all
    moreover have "bit (group_byte es * 2) (Suc j) = (Suc j < 8 \<and> bit (group_byte es) j)"
      using bit_double_Suc_iff [of "group_byte es" j] by (simp only: mult.commute possible_bit_word) simp
    ultimately show ?thesis
      using Cons.IH [of j] Suc by (simp add: bit_or_iff bit_1_iff)
  qed
qed

lemma drop_eq_Cons:
  assumes "drop k xs = y # ys"
  shows "k < length xs" "xs ! k = y" "drop (Suc k) xs = ys"
proof -
  from assms show "k < length xs"
    by (cases "k < length xs") simp_all
  from assms show "xs ! k = y"
    by (rule nth_via_drop)
  from assms show "drop (Suc k) xs = ys"
    by (metis drop_Suc list.sel(3) tl_drop)
qed

lemma fragments_acc_Cons: "fragments_acc c (d # ds) = fragments_acc (push_bit UINT8_T_SIZE (c OR ucast d)) ds"
  by (simp add: fragments_acc_def)

lemma fragments_acc_append: "fragments_acc c (ds1 @ ds2) = fragments_acc (fragments_acc c ds1) ds2"
  by (simp add: fragments_acc_def)

lemma run_count_append:
  "run_count (fragments_acc c ds1) (cb \<or> ds1 \<noteq> []) ds2 = run_count c cb (ds1 @ ds2)"
  by (auto simp: run_count_def fragments_acc_append)

lemma get_val_inner_counters:
  assumes "length grp \<le> 8"
  shows "drop k grp = map (Pair True) ds @ others \<Longrightarrow> drop idx buf = ds @ tail \<Longrightarrow>
         get_val_inner buf idx k (group_byte grp) c cb
           = get_val_inner buf (idx + length ds) (k + length ds) (group_byte grp)
               (fragments_acc c ds) (cb \<or> ds \<noteq> [])"
proof (induction ds arbitrary: k idx c cb)
  case Nil
  show ?case by (simp add: fragments_acc_def)
next
  case (Cons d ds)
  from Cons.prems(1) have g: "drop k grp = (True, d) # (map (Pair True) ds @ others)"
    by simp
  from Cons.prems(2) have b: "drop idx buf = d # (ds @ tail)"
    by simp
  note gk = drop_eq_Cons [OF g] and bk = drop_eq_Cons [OF b]
  from gk(1) assms have k8: "k < 8" by simp
  from gk(1,2) assms have "bit (group_byte grp) k"
    by (simp add: group_byte_bit)
  with k8 bk(1,2)
  have "get_val_inner buf idx k (group_byte grp) c cb
          = get_val_inner buf (Suc idx) (Suc k) (group_byte grp)
              (push_bit UINT8_T_SIZE (c OR ucast d)) True"
    by (subst get_val_inner.simps) (simp add: bit_test UINT8_T_SIZE_def)
  also have "\<dots> = get_val_inner buf (Suc idx + length ds) (Suc k + length ds) (group_byte grp)
                      (fragments_acc (push_bit UINT8_T_SIZE (c OR ucast d)) ds) (True \<or> ds \<noteq> [])"
    using gk(3) bk(3) by (rule Cons.IH)
  finally show ?case
    by (simp add: fragments_acc_Cons)
qed

lemma get_val_inner_value:
  assumes "length grp \<le> 8" "drop k grp = (False, v) # others" "drop idx buf = v # tail"
  shows "get_val_inner buf idx k (group_byte grp) c cb
           = Inr (Found (if cb then drop_bit UINT8_T_SIZE c + 2 else 1) v (idx + 1) (k + 1))"
proof -
  note gk = drop_eq_Cons [OF assms(2)] and bk = drop_eq_Cons [OF assms(3)]
  from gk(1) assms(1) have k8: "k < 8" by simp
  from gk(1,2) assms(1) have "\<not> bit (group_byte grp) k"
    by (simp add: group_byte_bit)
  with k8 bk(1,2) show ?thesis
    by (subst get_val_inner.simps) (simp add: bit_test UINT8_T_SIZE_def)
qed

lemma get_val_inner_8: "get_val_inner buf idx 8 byte c cb = Inr (Exhausted idx c cb)"
  by (subst get_val_inner.simps) (simp add: UINT8_T_SIZE_def)

lemma get_val_inner_group:
  assumes grp: "length grp \<le> 8" and k: "k \<le> length grp"
    and last: "length grp < 8 \<longrightarrow> rest = []"
    and es: "drop k grp @ rest = map (Pair True) ds @ (False, v) # es2"
    and buf: "drop idx buf = map snd (drop k grp) @ pack rest"
  shows "(\<exists>idx' k'. get_val_inner buf idx k (group_byte grp) c cb
                       = Inr (Found (run_count c cb ds) v idx' k') \<and>
                     positioned buf idx' k' (group_byte grp) es2) \<or>
         (\<exists>ds1 ds2 idx'. ds = ds1 @ ds2 \<and> length ds1 = length grp - k \<and> length grp = 8 \<and>
              get_val_inner buf idx k (group_byte grp) c cb
                = Inr (Exhausted idx' (fragments_acc c ds1) (cb \<or> ds1 \<noteq> [])) \<and>
              drop idx' buf = pack (map (Pair True) ds2 @ (False, v) # es2))"
proof -
  from es consider
    (inside) us where "drop k grp = map (Pair True) ds @ (False, v) # us" "es2 = us @ rest"
  | (across) us where "drop k grp @ us = map (Pair True) ds" "rest = us @ (False, v) # es2"
    by (auto simp: append_eq_append_conv2 append_eq_Cons_conv)
  then show ?thesis
  proof cases
    case inside
    let ?k = "k + length ds" and ?idx = "idx + length ds"
    from inside(1) buf
    have b: "drop idx buf = ds @ (v # map snd us @ pack rest)"
      by (simp add: comp_def)
    have "get_val_inner buf idx k (group_byte grp) c cb
            = get_val_inner buf ?idx ?k (group_byte grp) (fragments_acc c ds) (cb \<or> ds \<noteq> [])"
      using grp inside(1) b by (rule get_val_inner_counters)
    moreover
    have gk: "drop ?k grp = (False, v) # us"
      using inside(1) by (metis add.commute append_eq_conv_conj drop_drop length_map)
    have bk: "drop ?idx buf = v # (map snd us @ pack rest)"
      using b by (metis add.commute append_eq_conv_conj drop_drop)
    have "get_val_inner buf ?idx ?k (group_byte grp) (fragments_acc c ds) (cb \<or> ds \<noteq> [])
            = Inr (Found (if cb \<or> ds \<noteq> [] then drop_bit UINT8_T_SIZE (fragments_acc c ds) + 2 else 1)
                         v (?idx + 1) (?k + 1))"
      using grp gk bk by (rule get_val_inner_value)
    ultimately
    have found: "get_val_inner buf idx k (group_byte grp) c cb
                   = Inr (Found (run_count c cb ds) v (?idx + 1) (?k + 1))"
      by (simp add: run_count_def)
    note gs = drop_eq_Cons [OF gk] and bs = drop_eq_Cons [OF bk]
    from gs(1,3) bs(3) grp last inside(2)
    have "positioned buf (?idx + 1) (?k + 1) (group_byte grp) es2"
      unfolding positioned_def
      by (intro disjI2 exI [of _ grp] exI [of _ rest]) simp
    with found show ?thesis by blast
  next
    case across
    from across(1) obtain ds1 ds2 where ds: "ds = ds1 @ ds2"
      and g: "drop k grp = map (Pair True) ds1" and us: "us = map (Pair True) ds2"
      by (auto simp: append_eq_map_conv)
    from across(2) last grp have len: "length grp = 8"
      by (cases "length grp < 8") auto
    from g have l1: "length ds1 = length grp - k"
      by (metis length_drop length_map)
    from g buf have b: "drop idx buf = ds1 @ pack rest"
      by (simp add: comp_def)
    from g have g': "drop k grp = map (Pair True) ds1 @ []"
      by simp
    have "get_val_inner buf idx k (group_byte grp) c cb
            = get_val_inner buf (idx + length ds1) (k + length ds1) (group_byte grp)
                (fragments_acc c ds1) (cb \<or> ds1 \<noteq> [])"
      using grp g' b by (rule get_val_inner_counters)
    moreover from l1 k len have "k + length ds1 = 8" by simp
    ultimately have "get_val_inner buf idx k (group_byte grp) c cb
            = Inr (Exhausted (idx + length ds1) (fragments_acc c ds1) (cb \<or> ds1 \<noteq> []))"
      by (simp add: get_val_inner_8)
    moreover from b have "drop (idx + length ds1) buf = pack rest"
      by (metis add.commute append_eq_conv_conj drop_drop)
    ultimately show ?thesis
      using ds l1 len across(2) us by blast
  qed
qed

subsection \<open>Across groups\<close>

lemma pack_nonempty:
  "es \<noteq> [] \<Longrightarrow> pack es = group_byte (take 8 es) # map snd (take 8 es) @ pack (drop 8 es)"
  by (subst pack.simps) simp

lemma get_val_loop_boundary:
  "drop idx buf = pack (map (Pair True) ds @ (False, v) # es2) \<Longrightarrow>
     \<exists>idx' k' byte'.
        get_val_loop buf (length buf) idx 0 byte c cb
          = Inr (Some (run_count c cb ds, v), idx', k', byte') \<and>
        positioned buf idx' k' byte' es2"
proof (induction "length ds" arbitrary: ds idx byte c cb rule: less_induct)
  case less
  define es where "es = map (Pair True) ds @ (False, v) # es2"
  define grp where "grp = take 8 es"
  define rest where "rest = drop 8 es"
  have ne: "es \<noteq> []" by (simp add: es_def)
  from less.prems
  have b: "drop idx buf = group_byte grp # (map snd grp @ pack rest)"
    by (simp only: pack_nonempty [OF ne] es_def [symmetric] grp_def rest_def)
  note bk = drop_eq_Cons [OF b]
  have step: "get_val_loop buf (length buf) idx 0 byte c cb
                = group_step buf (length buf) (idx + 1) 0 (group_byte grp) c cb"
    using bk(1,2) by (subst get_val_loop_group_step) simp
  have grp: "length grp \<le> 8" by (simp add: grp_def)
  have k: "0 \<le> length grp" by simp
  have last: "length grp < 8 \<longrightarrow> rest = []" by (auto simp: grp_def rest_def)
  have es: "drop 0 grp @ rest = map (Pair True) ds @ (False, v) # es2"
    by (simp add: grp_def rest_def es_def [symmetric])
  from bk(3) have buf: "drop (idx + 1) buf = map snd (drop 0 grp) @ pack rest" by simp
  from get_val_inner_group [OF grp k last es buf, of c cb]
  consider
    (found) idx' k' where
      "get_val_inner buf (idx + 1) 0 (group_byte grp) c cb
         = Inr (Found (run_count c cb ds) v idx' k')"
      "positioned buf idx' k' (group_byte grp) es2"
  | (exhausted) ds1 ds2 idx' where "ds = ds1 @ ds2" "length ds1 = length grp - 0"
      "length grp = 8"
      "get_val_inner buf (idx + 1) 0 (group_byte grp) c cb
         = Inr (Exhausted idx' (fragments_acc c ds1) (cb \<or> ds1 \<noteq> []))"
      "drop idx' buf = pack (map (Pair True) ds2 @ (False, v) # es2)"
    by auto
  then show ?case
  proof cases
    case found
    with step show ?thesis
      by (auto simp: group_step_def)
  next
    case exhausted
    from exhausted(1,2,3) have "length ds2 < length ds" by simp
    from less.hyps [OF this exhausted(5), of "group_byte grp" "fragments_acc c ds1" "cb \<or> ds1 \<noteq> []"]
    obtain idx'' k'' byte'' where
      "get_val_loop buf (length buf) idx' 0 (group_byte grp) (fragments_acc c ds1) (cb \<or> ds1 \<noteq> [])
         = Inr (Some (run_count (fragments_acc c ds1) (cb \<or> ds1 \<noteq> []) ds2, v), idx'', k'', byte'')"
      "positioned buf idx'' k'' byte'' es2"
      by blast
    with step exhausted(1,4) show ?thesis
      by (auto simp: group_step_def run_count_append)
  qed
qed

lemma get_val_loop_run:
  assumes "positioned buf idx k byte (map (Pair True) ds @ (False, v) # es2)"
  shows "\<exists>idx' k' byte'.
           get_val_loop buf (length buf) idx k byte c cb
             = Inr (Some (run_count c cb ds, v), idx', k', byte') \<and>
           positioned buf idx' k' byte' es2"
proof (cases "k = 0")
  case True
  with assms have "drop idx buf = pack (map (Pair True) ds @ (False, v) # es2)"
    by (simp add: positioned_def)
  from get_val_loop_boundary [OF this, of byte c cb] True show ?thesis
    by simp
next
  case False
  with assms obtain grp rest where k: "0 < k" "k \<le> length grp" and grp: "length grp \<le> 8"
    and last: "length grp < 8 \<longrightarrow> rest = []" and byte: "byte = group_byte grp"
    and es: "drop k grp @ rest = map (Pair True) ds @ (False, v) # es2"
    and buf: "drop idx buf = map snd (drop k grp) @ pack rest"
    unfolding positioned_def by (auto dest: sym)
  have "map snd (drop k grp) @ pack rest \<noteq> []"
  proof (cases "drop k grp = []")
    case True
    with es have "rest \<noteq> []" by auto
    then show ?thesis by (simp add: pack_nonempty)
  next
    case False
    then show ?thesis by simp
  qed
  with buf have "idx < length buf"
    by (cases "idx < length buf") simp_all
  with k(1) have step: "get_val_loop buf (length buf) idx k byte c cb
                          = group_step buf (length buf) idx k (group_byte grp) c cb"
    by (subst get_val_loop_group_step) (simp add: byte)
  from get_val_inner_group [OF grp k(2) last es buf, of c cb]
  consider
    (found) idx' k' where
      "get_val_inner buf idx k (group_byte grp) c cb = Inr (Found (run_count c cb ds) v idx' k')"
      "positioned buf idx' k' (group_byte grp) es2"
  | (exhausted) ds1 ds2 idx' where "ds = ds1 @ ds2"
      "get_val_inner buf idx k (group_byte grp) c cb
         = Inr (Exhausted idx' (fragments_acc c ds1) (cb \<or> ds1 \<noteq> []))"
      "drop idx' buf = pack (map (Pair True) ds2 @ (False, v) # es2)"
    by auto
  then show ?thesis
  proof cases
    case found
    with step show ?thesis
      by (auto simp: group_step_def)
  next
    case exhausted
    from get_val_loop_boundary [OF exhausted(3), of "group_byte grp" "fragments_acc c ds1" "cb \<or> ds1 \<noteq> []"]
    obtain idx'' k'' byte'' where
      "get_val_loop buf (length buf) idx' 0 (group_byte grp) (fragments_acc c ds1) (cb \<or> ds1 \<noteq> [])
         = Inr (Some (run_count (fragments_acc c ds1) (cb \<or> ds1 \<noteq> []) ds2, v), idx'', k'', byte'')"
      "positioned buf idx'' k'' byte'' es2"
      by blast
    with step exhausted(1,2) show ?thesis
      by (auto simp: group_step_def run_count_append)
  qed
qed

lemma get_val_loop_end:
  assumes "positioned buf idx k byte []"
  shows "get_val_loop buf (length buf) idx k byte c cb = Inr (None, idx, k, byte)"
proof -
  from assms have "drop idx buf = []"
    by (auto simp: positioned_def)
  then have "\<not> idx < length buf" by simp
  then show ?thesis
    by (subst get_val_loop.simps) simp
qed

subsection \<open>Counts\<close>

lemma fragments_acc_value: "fragments_acc 0 ds = push_bit 8 (of_nat (be_value ds))"
proof (induction ds rule: rev_induct)
  case Nil
  show ?case by (simp add: fragments_acc_def be_value_def)
next
  case (snoc d ds)
  have disj: "push_bit 8 (of_nat (be_value ds) :: u64) + ucast d
                = push_bit 8 (of_nat (be_value ds)) OR ucast d"
    by (rule disjunctive_add) (auto simp: bit_push_bit_iff bit_ucast_iff dest: bit_imp_le_length)
  have "fragments_acc 0 (ds @ [d]) = push_bit 8 (fragments_acc 0 ds OR ucast d)"
    by (simp add: fragments_acc_def UINT8_T_SIZE_def)
  also have "\<dots> = push_bit 8 (push_bit 8 (of_nat (be_value ds)) + ucast d)"
    by (simp only: snoc disj)
  also have "push_bit 8 (of_nat (be_value ds) :: u64) + ucast d = of_nat (be_value (ds @ [d]))"
    by (simp add: be_value_snoc push_bit_eq_mult)
  finally show ?case .
qed

lemma drop_bit_push_bit_of_nat:
  assumes "m < 2 ^ 56"
  shows "drop_bit 8 (push_bit 8 (of_nat m :: u64)) = of_nat m"
proof -
  from assms have "m * 256 < 2 ^ 64" by simp
  then have a: "unat (of_nat (m * 256) :: u64) = m * 256"
    by (rule unat_of_nat_u64)
  have b: "push_bit 8 (of_nat m :: u64) = of_nat (m * 256)"
    by (simp add: push_bit_eq_mult)
  have "unat (drop_bit 8 (push_bit 8 (of_nat m :: u64))) = unat (of_nat (m * 256) :: u64) div 256"
    by (simp only: b) (simp add: drop_bit_eq_div unat_div)
  also have "\<dots> = m"
    unfolding a by simp
  finally have "unat (drop_bit 8 (push_bit 8 (of_nat m :: u64))) = m" .
  moreover from assms have "unat (of_nat m :: u64) = m"
    by (simp add: unat_of_nat)
  ultimately show ?thesis
    by (simp only: word_unat_eq_iff)
qed

lemma run_count_run_entries:
  assumes "1 \<le> n" "n < 2 ^ 56 + 2"
  shows "\<exists>ds. run_entries n v = map (Pair True) ds @ [(False, v)] \<and>
              run_count 0 False ds = of_nat n"
proof -
  consider "n = 1" | "n = 2" | "3 \<le> n" using assms(1) by arith
  then show ?thesis
  proof cases
    case 1
    then have "run_entries n v = map (Pair True) [] @ [(False, v)]"
      "run_count 0 False [] = of_nat n"
      by (simp_all add: run_entries_def run_count_def)
    then show ?thesis by blast
  next
    case 2
    then have "run_entries n v = map (Pair True) [0] @ [(False, v)]"
      "run_count 0 False [0] = of_nat n"
      by (simp_all add: run_entries_def run_count_def fragments_acc_def UINT8_T_SIZE_def)
    then show ?thesis by blast
  next
    case 3
    let ?ds = "be_digits (n - 2)"
    from 3 have ne: "?ds \<noteq> []"
      using be_digits_hd [of "n - 2"] by simp
    from 3 assms(2) have "n - 2 < 2 ^ 56" by simp
    then have "drop_bit 8 (fragments_acc 0 ?ds) = of_nat (n - 2)"
      by (simp add: fragments_acc_value be_value_be_digits drop_bit_push_bit_of_nat)
    moreover from 3 have "(of_nat (n - 2) :: u64) + 2 = of_nat n"
      by (simp add: of_nat_diff)
    ultimately have "run_count 0 False ?ds = of_nat n"
      using ne by (simp add: run_count_def UINT8_T_SIZE_def)
    moreover from 3 have "run_entries n v = map (Pair True) ?ds @ [(False, v)]"
      by (simp add: run_entries_def)
    ultimately show ?thesis by blast
  qed
qed

subsection \<open>Pairs\<close>

lemma decode_pairs_entries:
  "positioned buf idx k byte (entries_of rs) \<Longrightarrow>
   \<forall>r\<in>set rs. 1 \<le> fst r \<and> fst r < 2 ^ 56 + 2 \<Longrightarrow>
     decode_pairs buf (length buf) idx k byte = Inr (map (\<lambda>(n, v). (of_nat n, v)) rs)"
proof (induction rs arbitrary: idx k byte)
  case Nil
  then have "GetValCount buf (length buf) idx k byte = Inr (None, idx, k, byte)"
    by (simp add: GetValCount_def get_val_loop_end)
  then show ?case
    by (subst decode_pairs.simps) simp
next
  case (Cons r rs)
  obtain n v where r: "r = (n, v)" by (cases r)
  from Cons.prems(2) r have n: "1 \<le> n" "n < 2 ^ 56 + 2" by simp_all
  from run_count_run_entries [OF n, of v] obtain ds where
    ds: "run_entries n v = map (Pair True) ds @ [(False, v)]" "run_count 0 False ds = of_nat n"
    by blast
  from Cons.prems(1) r ds(1)
  have "positioned buf idx k byte (map (Pair True) ds @ (False, v) # entries_of rs)"
    by simp
  from get_val_loop_run [OF this, of 0 False] ds(2) obtain idx' k' byte' where
    step: "GetValCount buf (length buf) idx k byte = Inr (Some (of_nat n, v), idx', k', byte')"
    and pos: "positioned buf idx' k' byte' (entries_of rs)"
    by (auto simp: GetValCount_def)
  from Cons.prems(2) have "\<forall>r\<in>set rs. 1 \<le> fst r \<and> fst r < 2 ^ 56 + 2" by simp
  with pos have "decode_pairs buf (length buf) idx' k' byte'
                   = Inr (map (\<lambda>(n, v). (of_nat n, v)) rs)"
    by (rule Cons.IH)
  with step r show ?case
    by (subst decode_pairs.simps) simp
qed

subsection \<open>Horizontal reconstruction\<close>

lemma expand_Nil [simp]: "expand [] = []"
  by (simp add: expand_def)

lemma expand_Cons [simp]: "expand ((c, v) # ps) = replicate (unat c) v @ expand ps"
  by (simp add: expand_def)

lemma decompress_h_loop_pairs:
  "decode_pairs buf sz idx k byte = Inr ps \<Longrightarrow> n \<le> length out \<Longrightarrow>
     decompress_h_loop buf sz idx k byte out n
       = Inr (take n out @ take (length out - n) (expand ps) @ drop (n + length (expand ps)) out,
              min (length out) (n + length (expand ps)))"
proof (induction buf sz idx k byte out n arbitrary: ps rule: decompress_h_loop.induct)
  case (1 buf sz idx k byte out n)
  note dp = decode_pairs.simps [of buf sz idx k byte]
  note dh = decompress_h_loop.simps [of buf sz idx k byte out n]
  show ?case
  proof (cases "GetValCount buf sz idx k byte")
    case (Inl e)
    with "1.prems"(1) show ?thesis by (simp add: dp)
  next
    case (Inr r)
    obtain p idx1 k1 byte1 where r: "r = (p, idx1, k1, byte1)"
      by (cases r)
    show ?thesis
    proof (cases p)
      case None
      with Inr r "1.prems"(1) have "ps = []" by (simp add: dp)
      with None Inr r "1.prems"(2) show ?thesis
        by (simp add: dh)
    next
      case (Some cv)
      obtain c v where cv: "cv = (c, v)" by (cases cv)
      note gv = Inr [unfolded r Some cv]
      from "1.prems"(1) gv obtain ps' where ps': "decode_pairs buf sz idx1 k1 byte1 = Inr ps'"
        and ps: "ps = (c, v) # ps'"
        by (auto simp: dp split: sum.splits)
      show ?thesis
      proof (cases "length out < n + unat c")
        case True
        with "1.prems"(2) have "take (length out - n) (replicate (unat c) v @ expand ps')
                                  = replicate (length out - n) v"
          by (simp add: min_def)
        with True gv ps "1.prems"(2) show ?thesis
          by (simp add: dh memset_def min_def)
      next
        case False
        let ?out = "memset out n v (unat c)"
        from False have len: "length ?out = length out"
          by (simp add: memset_def)
        from False have le: "n + unat c \<le> length ?out"
          by (simp add: len)
        have IH: "decompress_h_loop buf sz idx1 k1 byte1 ?out (n + unat c)
              = Inr (take (n + unat c) ?out @ take (length ?out - (n + unat c)) (expand ps')
                       @ drop (n + unat c + length (expand ps')) ?out,
                     min (length ?out) (n + unat c + length (expand ps')))"
          using gv False ps' le by (intro "1.IH") simp_all
        from False have a: "take (n + unat c) ?out = take n out @ replicate (unat c) v"
          by (auto simp: memset_def min_def)
        from False have b: "drop (n + unat c + length (expand ps')) ?out
                              = drop (n + unat c + length (expand ps')) out"
          by (auto simp: memset_def min_def add.commute add.left_commute)
        have c: "take (length out - n) (replicate (unat c) v @ expand ps')
                   = replicate (unat c) v @ take (length out - (n + unat c)) (expand ps')"
          using False by (auto simp: min_def)
        from False gv have "decompress_h_loop buf sz idx k byte out n
              = decompress_h_loop buf sz idx1 k1 byte1 ?out (n + unat c)"
          by (simp add: dh)
        with IH a b c show ?thesis
          by (simp add: ps len add.assoc)
      qed
    qed
  qed
qed

subsection \<open>Header and first allocation\<close>





lemma length_header_bytes_header_size:
  "length (header_bytes settings width height) = header_size width height"
  by (simp add: header_size_def length_header_bytes)


lemma header_size_small: "unat W < 256 \<Longrightarrow> unat H < 256 \<Longrightarrow> header_size W H = 3"
  by (simp add: header_size_def length_header_bytes dimension_bytes_small)



lemma appendSettingsToBuff_overflow:
  assumes "encoded_buff c = []" "encoded_alloc c = 0" "alloc_size c < header_size width height"
  shows "appendSettingsToBuff c settings width height = Inl OutOfBounds"
proof -
  let ?c1 = "c\<lparr>encoded_alloc := alloc_size c\<rparr>"
  from assms(1,2) have r: "ReallocateBuffer_rle c = Inr ?c1"
    by (simp add: ReallocateBuffer_rle_def encoded_index_def)
  from assms(1,3)
  have "encoded_index ?c1 \<le> encoded_alloc ?c1"
    "encoded_alloc ?c1 < encoded_index ?c1 + length (header_bytes settings width height)"
    by (simp_all add: encoded_index_def length_header_bytes_header_size)
  then have "write_bytes ?c1 (header_bytes settings width height) = Inl OutOfBounds"
    by (rule write_bytes_overflow)
  with assms(1,2) r show ?thesis
    by (simp add: appendSettingsToBuff_def Let_def)
qed

subsection \<open>Whole frames\<close>






section \<open>Run encoding and its inverse\<close>

lemma be_digits_2_56: "be_digits 72057594037927936 = [1, 0, 0, 0, 0, 0, 0, 0]"
  by (simp add: be_digits.simps)

lemma counter_values_2_56:
  "rev (counter_values_loop 72057594037927936) = [1, 0, 0, 0, 0, 0, 0, 0]"
  by (simp add: counter_values_loop.simps MAX_COUNTER_VAL_def)

text \<open>
  Claim C4 at a run of \<open>2 ^ 56 + 2 = 72057594037927938\<close> pixels of value 7. Its
  counter \<open>n - 2 = 2 ^ 56\<close> has the eight base-256 digits \<open>1, 0, 0, 0, 0, 0, 0, 0\<close>,
  so the entries of the run are eight counter fragments and the value, and the
  payload is the group byte \<open>0xFF\<close> with the eight fragments, then the group byte
  \<open>0x00\<close> with the value. \<open>GetValCount\<close>, called on this payload, returns the
  count 2 instead of \<open>2 ^ 56 + 2\<close>: it adds a fragment to \<open>count\<close> before it
  shifts \<open>count\<close> left by eight bits, and shifts back once at the end, so the
  first of eight fragments leaves the 64 bits of \<open>count\<close>.
\<close>

theorem C4_eighth_fragment_lost:
  "run_entries 72057594037927938 7 = map (Pair True) [1, 0, 0, 0, 0, 0, 0, 0] @ [(False, 7)] \<and>
   be_value [1, 0, 0, 0, 0, 0, 0, 0] + 2 = 72057594037927938 \<and>
   pack (run_entries 72057594037927938 7) = [0xFF, 1, 0, 0, 0, 0, 0, 0, 0, 0, 7] \<and>
   GetValCount [0xFF, 1, 0, 0, 0, 0, 0, 0, 0, 0, 7] 11 0 0 0 = Inr (Some (2, 7), 11, 1, 0)"
proof (intro conjI)
  show re: "run_entries 72057594037927938 7
              = map (Pair True) [1, 0, 0, 0, 0, 0, 0, 0] @ [(False, 7)]"
    by (simp add: run_entries_def be_digits_2_56)
  show "be_value [1, 0, 0, 0, 0, 0, 0, 0] + 2 = 72057594037927938"
    by (simp add: be_value_def)
  show "pack (run_entries 72057594037927938 7) = [0xFF, 1, 0, 0, 0, 0, 0, 0, 0, 0, 7]"
    unfolding re by (simp add: pack.simps)
  show "GetValCount [0xFF, 1, 0, 0, 0, 0, 0, 0, 0, 0, 7] 11 0 0 0 = Inr (Some (2, 7), 11, 1, 0)"
    by (simp add: eval_decompressor eval_rle_consts eval_binds cong: eval_congs)
qed

section \<open>The last group of a scan\<close>





section \<open>Size of the RLE frame\<close>




text \<open>
  The image of one pixel is outside this theorem: the constructor computes
  \<open>alloc_size = 2\<close>, \<open>appendSettingsToBuff\<close> allocates these two bytes and writes the
  three bytes of the header.
\<close>

lemma one_pixel_overflow:
  "SequenceScanning (RleCompressor_new 1 1) [v] 1 1 model = Inl OutOfBounds"
  "AdaptiveScanning (RleCompressor_new 1 1) [v] 1 1 model = Inl OutOfBounds"
proof -
  have "alloc_size (RleCompressor_new 1 1) < header_size 1 1"
    by (simp add: RleCompressor_new_def header_size_small)
  then have "appendSettingsToBuff (RleCompressor_new 1 1) s 1 1 = Inl OutOfBounds" for s
    by (intro appendSettingsToBuff_overflow) (simp_all add: RleCompressor_new_def)
  then show "SequenceScanning (RleCompressor_new 1 1) [v] 1 1 model = Inl OutOfBounds"
    "AdaptiveScanning (RleCompressor_new 1 1) [v] 1 1 model = Inl OutOfBounds"
    by (simp_all add: SequenceScanning_def AdaptiveScanning_def Let_def)
qed

section \<open>RLE streams that are cut short\<close>

lemma unat_and_7: "unat ((b :: byte) AND 7) < 8"
proof -
  have "b AND 7 = take_bit 3 b"
    by (simp add: take_bit_eq_mask mask_eq_exp_minus_1)
  then have "unat (b AND 7) = take_bit 3 (unat b)"
    by (simp add: unsigned_take_bit_eq)
  then show ?thesis
    using take_bit_nat_less_exp [of 3 "unat b"] by simp
qed

lemma unat_drop_bit_3: "unat (drop_bit 3 (x :: byte)) < 32"
proof -
  have "unat x < 256"
    using unsigned_less [of x] by simp
  then have "unat x div 8 < 32" by simp
  then show ?thesis
    by (simp add: drop_bit_eq_div unat_div)
qed

lemma unat_plus_1: "unat (x :: byte) < 255 \<Longrightarrow> unat (x + 1) = unat x + 1"
  by (simp add: unat_word_ariths)

lemma count_w_width_bytes:
  "unat (drop_bit 3 (b AND WIDTH_COUNT_MASK) + 1) = width_bytes b"
  using unat_drop_bit_3 [of "b AND WIDTH_COUNT_MASK"]
  by (simp add: width_bytes_def unat_plus_1)

lemma count_h_height_bytes:
  "unat ((b AND HEIGHT_COUNT_MASK) + 1) = height_bytes b"
  using unat_and_7 [of b]
  by (simp add: height_bytes_def HEIGHT_COUNT_MASK_def unat_plus_1)

text \<open>
  Claim C5, as far as it holds. \<open>GetSize\<close> compares \<open>size\<close> with \<open>count_h + count_w\<close>, the
  settings byte not counted. A stream of fewer bytes than the settings byte announces
  for width and height, or of no bytes at all, is refused: \<open>Decompress\<close> returns
  \<open>false\<close>. For eight width bytes this covers every stream of fewer than 9 bytes.
\<close>

theorem C5_short_header:
  assumes "sz \<le> length buf"
    and "sz = 0 \<or> sz < width_bytes (hd buf) + height_bytes (hd buf)"
  shows "\<exists>m. Decompress buf sz = Inr (False, m, [], 0)"
proof (cases "sz = 0")
  case True
  then have "Decompress buf sz = Inr (False, False, [], 0)"
    by (simp add: Decompress_def)
  then show ?thesis by blast
next
  case False
  with assms(1) obtain b bs where buf: "buf = b # bs"
    by (cases buf) auto
  from False assms(2) buf have "sz < height_bytes b + width_bytes b"
    by simp
  then have "GetSize_rle buf sz = Inr None"
    unfolding GetSize_rle_def buf list.case Let_def count_w_width_bytes count_h_height_bytes
    by (simp only: if_True)
  with False have "Decompress buf sz = Inr (False, b AND MODEL_MASK \<noteq> 0, [], 0)"
    by (simp add: Decompress_def buf Let_def)
  then show ?thesis by blast
qed

theorem C5_short_header_witness:
  "(8 :: nat) \<le> length [0xB8, 0, 0, 0, 0, 0, 0, 0 :: byte] \<and>
   ((8 :: nat) = 0 \<or> 8 < width_bytes (hd [0xB8, 0, 0, 0, 0, 0, 0, 0])
                         + height_bytes (hd [0xB8, 0, 0, 0, 0, 0, 0, 0])) \<and>
   (\<exists>m. Decompress [0xB8, 0, 0, 0, 0, 0, 0, 0] 8 = Inr (False, m, [], 0))"
proof -
  have a: "(8 :: nat) \<le> length [0xB8, 0, 0, 0, 0, 0, 0, 0 :: byte]"
    by simp
  have b: "(8 :: nat) = 0 \<or> 8 < width_bytes (hd [0xB8, 0, 0, 0, 0, 0, 0, 0])
                                + height_bytes (hd [0xB8, 0, 0, 0, 0, 0, 0, 0])"
    by (simp add: width_bytes_def height_bytes_def eval_rle_consts)
  from C5_short_header [OF a b] a b show ?thesis
    by blast
qed

text \<open>
  A settings byte that announces eight width bytes and one height byte, in a complete
  stream of 12 bytes for the image of one pixel \<open>0x05\<close>: \<open>Decompress\<close> succeeds. And a
  stream of two bytes that announces one byte each for width and height passes the
  check of \<open>GetSize\<close>, which then reads the height behind the end.
\<close>

theorem C5_complete_header_counterexample:
  "width_bytes 0xB8 = 8 \<and>
   Decompress [0xB8, 0, 0, 0, 0, 0, 0, 0, 1, 1, 0x00, 0x05] 12 = Inr (True, False, [5], 1) \<and>
   Decompress [0x80, 1] 2 = Inl OutOfBounds"
  by (simp add: width_bytes_def eval_decompressor eval_rle_consts eval_binds cong: eval_congs)

section \<open>Horizontal reconstruction\<close>

text \<open>
  Let the header of a non-empty stream select the horizontal reconstruction and give
  the dimensions \<open>w\<close> and \<open>h\<close>, and let \<open>GetValCount\<close>, called until it returns
  \<open>false\<close>, deliver the pairs \<open>ps\<close> without reading outside the array. The output
  has \<open>w * h\<close> bytes, the product of two \<open>uint32_t\<close>. \<open>Decompress\<close> returns \<open>true\<close>
  exactly if the pixels of the pairs fill them; what is beyond the output is cut off,
  and when the pixels are fewer the call fails with \<open>dec_buffer_index\<close> at their
  number.
\<close>

lemma Decompress_horizontal:
  assumes "0 < sz" "buf = b # bs" "b AND SCANNING_MASK \<noteq> 0"
    and "GetSize_rle buf sz = Inr (Some (w, h, idx))"
    and "decode_pairs buf sz idx 0 0 = Inr ps"
  shows "Decompress buf sz =
           Inr (unat (w * h) \<le> length (expand ps), b AND MODEL_MASK \<noteq> 0,
                take (unat (w * h)) (expand ps) @ replicate (unat (w * h) - length (expand ps)) 0,
                min (unat (w * h)) (length (expand ps)))"
proof -
  let ?n = "unat (w * h)"
  have "decompress_h_loop buf sz idx 0 0 (replicate ?n 0) 0
          = Inr (take 0 (replicate ?n 0) @ take (length (replicate ?n (0 :: byte)) - 0) (expand ps)
                   @ drop (0 + length (expand ps)) (replicate ?n 0),
                 min (length (replicate ?n (0 :: byte))) (0 + length (expand ps)))"
    using assms(5) by (rule decompress_h_loop_pairs) simp
  then have "DecompressHorizontally buf sz idx (replicate ?n 0)
               = Inr (?n \<le> length (expand ps),
                      take ?n (expand ps) @ replicate (?n - length (expand ps)) 0,
                      min ?n (length (expand ps)))"
    by (auto simp: DecompressHorizontally_def min_def)
  with assms(1-4) show ?thesis
    by (simp add: Decompress_def Let_def)
qed

lemma replicate_numeral: "replicate (numeral n) x = x # replicate (numeral n - 1) x"
  by (simp add: numeral_eq_Suc)

text \<open>
  Claim C9 at a stream whose header selects the horizontal reconstruction and gives
  the width \<open>2 ^ 31 + 1\<close> and the height 2, that is \<open>2 ^ 32 + 2\<close> pixels, followed
  by one pair for two pixels \<open>0x07\<close>. \<open>Decompress\<close> computes the size of the output
  as a product of two \<open>uint32_t\<close>, which is 2: it returns \<open>true\<close> with an output of
  two bytes, although the pairs fill two of the \<open>2 ^ 32 + 2\<close> bytes of the image.
\<close>

theorem C9_wrapped_size_accepted:
  "GetSize_rle [0x98, 0x80, 0, 0, 1, 2, 0x01, 0x00, 0x07] 9 = Inr (Some (0x80000001, 2, 6)) \<and>
   unat (0x80000001 :: u32) * unat (2 :: u32) = 4294967298 \<and>
   GetValCount [0x98, 0x80, 0, 0, 1, 2, 0x01, 0x00, 0x07] 9 6 0 0 = Inr (Some (2, 7), 9, 2, 1) \<and>
   GetValCount [0x98, 0x80, 0, 0, 1, 2, 0x01, 0x00, 0x07] 9 9 2 1 = Inr (None, 9, 2, 1) \<and>
   Decompress [0x98, 0x80, 0, 0, 1, 2, 0x01, 0x00, 0x07] 9 = Inr (True, False, [7, 7], 2)"
  by (simp add: eval_decompressor eval_rle_consts eval_binds replicate_numeral cong: eval_congs)

end
